theory Spec2Isabelle
  imports Main "HOL-Library.Multiset"
begin

section \<open>The two tables of the SQLite file\<close>

text \<open>
  The schema of \<^verbatim>\<open>sqlCreateTable\<close> and \<^verbatim>\<open>sqlCreateVotesTable\<close> (unnamed/part_001):
  a row of \<^verbatim>\<open>quotes\<close> is (id, date, author, quote), a row of \<^verbatim>\<open>votes\<close> is
  (quote_id, voter, vote, date). A table is the list of its rows in insertion order.
  \<open>seq\<close> is the counter SQLite keeps for \<^verbatim>\<open>AUTOINCREMENT\<close>: the largest id ever given out.
  Go's \<^verbatim>\<open>int\<close> and SQLite's INTEGER are 64-bit; ids, dates and counts are modelled as \<open>int\<close>.
\<close>

record quote_row =
  q_id :: int
  q_date :: int
  q_author :: string
  q_quote :: string

record vote_row =
  quote_id :: int
  voter :: string
  vote :: int
  v_date :: int

record database =
  quotes :: "quote_row list"
  votes :: "vote_row list"
  seq :: int

text \<open>
  Every call into \<^verbatim>\<open>database/sql\<close> can fail for a reason outside the program (locked file,
  full disk, broken connection). A \<open>site\<close> names one such call of the source; the set
  \<open>faults\<close> given to an operation lists the calls that fail during it.
\<close>

datatype site =
    SqlOpen | CreateTable | GetCount | CloseDB
  | ExecAdd | LastInsertId | GetRandom | GetByID
  | BeginTx | ExecDelVotes | ExecDel | RowsAffected | Commit
  | ExecEdit | QueryAll | Scan | RowsClose | RowsErr
  | HasQuote | HasVote | ExecUnvote | ExecVote
  | GetUpvotes | GetDownvotes | TmplExecute | Bcrypt

type_synonym faults = "site set"

text \<open>
  Go's error values: \<^verbatim>\<open>sql.ErrNoRows\<close>, \<^verbatim>\<open>errors.New(msg)\<close>, a constraint violation reported
  by SQLite, its \<^verbatim>\<open>SQLITE_FULL\<close> when no id is left for a new row, a driver failure at a call
  site, and \<^verbatim>\<open>fmt.Errorf(format, ..., err)\<close> wrapping
  another error (the format string is kept, the rendered text is not).
\<close>

datatype error =
    ErrNoRows
  | ErrorsNew string
  | ErrConstraint
  | ErrFull
  | ErrDriver site
  | Errorf string error

text \<open>A Go call either returns or panics (a nil pointer dereference).\<close>

datatype 'a outcome = Panic | Return 'a

text \<open>
  \<^verbatim>\<open>type QuoteDB struct\<close>: the handle \<^verbatim>\<open>db *sql.DB\<close> is \<open>None\<close> when nil and otherwise holds
  the contents of the open file; \<^verbatim>\<open>webhash\<close> is the bcrypt hash, kept as opaque bytes.
\<close>

record QuoteDB =
  db :: "database option"
  webuser :: string
  webpass :: string
  webhash :: string
  nQuotes :: int

text \<open>\<^verbatim>\<open>type Quote struct\<close>; \<open>Date\<close> is kept as the Unix seconds read from the table.\<close>

record Quote =
  ID :: int
  Date :: int
  Author :: string
  QuoteText :: string
  Upvotes :: int
  Downvotes :: int

definition zero_Quote :: Quote where
  "zero_Quote = \<lparr>ID = 0, Date = 0, Author = [], QuoteText = [], Upvotes = 0, Downvotes = 0\<rparr>"

section \<open>The SQL statements\<close>

text \<open>\<^verbatim>\<open>SELECT EXISTS(SELECT id FROM quotes WHERE id = ?)\<close>\<close>

definition sqlHasQuote :: "database \<Rightarrow> int \<Rightarrow> int" where
  "sqlHasQuote d i = (if list_ex (\<lambda>r. q_id r = i) (quotes d) then 1 else 0)"

text \<open>The condition \<^verbatim>\<open>WHERE quote_id = ? AND voter = ?\<close> on a row of \<^verbatim>\<open>votes\<close>.\<close>

definition for_pair :: "int \<Rightarrow> string \<Rightarrow> vote_row \<Rightarrow> bool" where
  "for_pair i v r = (quote_id r = i \<and> voter r = v)"

text \<open>\<^verbatim>\<open>SELECT vote FROM VOTES WHERE quote_id = ? AND voter = ? LIMIT 1\<close>; \<open>None\<close> is no row.\<close>

definition sqlHasVote :: "database \<Rightarrow> int \<Rightarrow> string \<Rightarrow> int option" where
  "sqlHasVote d i v =
     (case filter (for_pair i v) (votes d) of
        [] \<Rightarrow> None
      | r # _ \<Rightarrow> Some (vote r))"

text \<open>\<^verbatim>\<open>DELETE FROM VOTES WHERE quote_id = ? AND voter = ?\<close>\<close>

definition sqlUnvote :: "database \<Rightarrow> int \<Rightarrow> string \<Rightarrow> database" where
  "sqlUnvote d i v = d\<lparr>votes := filter (\<lambda>r. \<not> for_pair i v r) (votes d)\<rparr>"

text \<open>
  An INSERT into \<^verbatim>\<open>votes\<close>: refused by \<^verbatim>\<open>PRIMARY KEY (quote_id, voter)\<close> when the pair has a
  row, and by \<^verbatim>\<open>FOREIGN KEY (quote_id) REFERENCES quotes (id)\<close> when the quote is missing
  (\<^verbatim>\<open>OpenDB\<close> sets \<^verbatim>\<open>_foreign_keys=1\<close>).
\<close>

definition insert_vote :: "database \<Rightarrow> vote_row \<Rightarrow> error + database" where
  "insert_vote d r =
     (if list_ex (for_pair (quote_id r) (voter r)) (votes d) then Inl ErrConstraint
      else if \<not> list_ex (\<lambda>q. q_id q = quote_id r) (quotes d) then Inl ErrConstraint
      else Inr (d\<lparr>votes := votes d @ [r]\<rparr>))"

text \<open>\<^verbatim>\<open>INSERT INTO votes (quote_id, voter, vote, date) VALUES (?, ?, 1, ?)\<close>\<close>

definition sqlUpvote :: "database \<Rightarrow> int \<Rightarrow> string \<Rightarrow> int \<Rightarrow> error + database" where
  "sqlUpvote d i v now = insert_vote d \<lparr>quote_id = i, voter = v, vote = 1, v_date = now\<rparr>"

text \<open>\<^verbatim>\<open>INSERT INTO votes (quote_id, voter, vote, date) VALUES (?, ?, -1, ?)\<close>\<close>

definition sqlDownvote :: "database \<Rightarrow> int \<Rightarrow> string \<Rightarrow> int \<Rightarrow> error + database" where
  "sqlDownvote d i v now = insert_vote d \<lparr>quote_id = i, voter = v, vote = - 1, v_date = now\<rparr>"

text \<open>\<^verbatim>\<open>SELECT COUNT(*) FROM votes WHERE quote_id = ? AND vote = 1\<close> and its twin for \<open>-1\<close>.\<close>

definition sqlGetUpvotes :: "database \<Rightarrow> int \<Rightarrow> int" where
  "sqlGetUpvotes d i = int (length (filter (\<lambda>r. quote_id r = i \<and> vote r = 1) (votes d)))"

definition sqlGetDownvotes :: "database \<Rightarrow> int \<Rightarrow> int" where
  "sqlGetDownvotes d i = int (length (filter (\<lambda>r. quote_id r = i \<and> vote r = - 1) (votes d)))"

section \<open>The vote operations (unnamed/part_001)\<close>

text \<open>
  The closure \<^verbatim>\<open>runTx\<close> of \<^verbatim>\<open>Upvote\<close>, run on the transaction's view \<open>tx\<close> of the database.
  It returns the error, or \<^verbatim>\<open>alreadyVoted\<close> with the view after its statements.
  \<^verbatim>\<open>var vote int\<close> stays 0 when the scan reports \<^verbatim>\<open>sql.ErrNoRows\<close>.
\<close>

definition Upvote_runTx :: "database \<Rightarrow> faults \<Rightarrow> int \<Rightarrow> int \<Rightarrow> string \<Rightarrow> error + (bool \<times> database)" where
  "Upvote_runTx tx flt now i v =
     (if HasQuote \<in> flt then Inl (ErrDriver HasQuote)
      else if sqlHasQuote tx i = 0 then Inl (ErrorsNew ''Not a valid id'')
      else if HasVote \<in> flt then Inl (ErrDriver HasVote)
      else
        let vote = (case sqlHasVote tx i v of None \<Rightarrow> 0 | Some x \<Rightarrow> x) in
        if vote > 0 then Inr (True, tx)
        else if vote < 0 \<and> ExecUnvote \<in> flt
          then Inl (Errorf ''failed to delete old downvote: %w'' (ErrDriver ExecUnvote))
        else
          let tx1 = (if vote < 0 then sqlUnvote tx i v else tx) in
          if ExecVote \<in> flt
            then Inl (Errorf ''failed to execute upvote: %w'' (ErrDriver ExecVote))
          else
            (case sqlUpvote tx1 i v now of
               Inl e \<Rightarrow> Inl (Errorf ''failed to execute upvote: %w'' e)
             | Inr tx2 \<Rightarrow> Inr (False, tx2)))"

text \<open>
  \<^verbatim>\<open>Upvote\<close>. \<^verbatim>\<open>q.db.BeginTx\<close> dereferences the handle. The test after \<^verbatim>\<open>tx.Rollback()\<close> is
  \<^verbatim>\<open>err != nil\<close> (not \<^verbatim>\<open>rerr\<close>), which holds there, so the first \<^verbatim>\<open>return\<close> is always taken.
  A transaction that is rolled back, or whose commit fails, leaves the file as it was.
\<close>

definition Upvote :: "QuoteDB \<Rightarrow> faults \<Rightarrow> int \<Rightarrow> int \<Rightarrow> string \<Rightarrow> ((bool \<times> error option) \<times> QuoteDB) outcome" where
  "Upvote q flt now i v =
     (case db q of
        None \<Rightarrow> Panic
      | Some d \<Rightarrow>
          Return
            (if BeginTx \<in> flt then ((False, Some (ErrDriver BeginTx)), q)
             else
               (case Upvote_runTx d flt now i v of
                  Inl e \<Rightarrow> ((False, Some (Errorf ''failed to rollback due to error (%v): %w'' e)), q)
                | Inr (alreadyVoted, tx) \<Rightarrow>
                    if Commit \<in> flt
                      then ((False, Some (Errorf ''failed to commit upvote: %w'' (ErrDriver Commit))), q)
                    else ((\<not> alreadyVoted, None), q\<lparr>db := Some tx\<rparr>))))"

definition Downvote_runTx :: "database \<Rightarrow> faults \<Rightarrow> int \<Rightarrow> int \<Rightarrow> string \<Rightarrow> error + (bool \<times> database)" where
  "Downvote_runTx tx flt now i v =
     (if HasQuote \<in> flt then Inl (ErrDriver HasQuote)
      else if sqlHasQuote tx i = 0 then Inl (ErrorsNew ''Not a valid id'')
      else if HasVote \<in> flt then Inl (ErrDriver HasVote)
      else
        let vote = (case sqlHasVote tx i v of None \<Rightarrow> 0 | Some x \<Rightarrow> x) in
        if vote < 0 then Inr (True, tx)
        else if vote > 0 \<and> ExecUnvote \<in> flt
          then Inl (Errorf ''failed to delete old upvote: %w'' (ErrDriver ExecUnvote))
        else
          let tx1 = (if vote > 0 then sqlUnvote tx i v else tx) in
          if ExecVote \<in> flt
            then Inl (Errorf ''failed to exec downvote: %w'' (ErrDriver ExecVote))
          else
            (case sqlDownvote tx1 i v now of
               Inl e \<Rightarrow> Inl (Errorf ''failed to exec downvote: %w'' e)
             | Inr tx2 \<Rightarrow> Inr (False, tx2)))"

definition Downvote :: "QuoteDB \<Rightarrow> faults \<Rightarrow> int \<Rightarrow> int \<Rightarrow> string \<Rightarrow> ((bool \<times> error option) \<times> QuoteDB) outcome" where
  "Downvote q flt now i v =
     (case db q of
        None \<Rightarrow> Panic
      | Some d \<Rightarrow>
          Return
            (if BeginTx \<in> flt then ((False, Some (ErrDriver BeginTx)), q)
             else
               (case Downvote_runTx d flt now i v of
                  Inl e \<Rightarrow> ((False, Some (Errorf ''failed to rollback due to error (%v): %w'' e)), q)
                | Inr (alreadyVoted, tx) \<Rightarrow>
                    if Commit \<in> flt
                      then ((False, Some (Errorf ''failed to commit downvote: %w'' (ErrDriver Commit))), q)
                    else ((\<not> alreadyVoted, None), q\<lparr>db := Some tx\<rparr>))))"

text \<open>The closure of \<^verbatim>\<open>Unvote\<close>; it returns \<^verbatim>\<open>actuallyDeleted\<close> with the view.\<close>

definition Unvote_runTx :: "database \<Rightarrow> faults \<Rightarrow> int \<Rightarrow> string \<Rightarrow> error + (bool \<times> database)" where
  "Unvote_runTx tx flt i v =
     (if HasQuote \<in> flt then Inl (ErrDriver HasQuote)
      else if sqlHasQuote tx i = 0 then Inl (ErrorsNew ''Not a valid id'')
      else if HasVote \<in> flt then Inl (ErrDriver HasVote)
      else
        (case sqlHasVote tx i v of
           None \<Rightarrow> Inr (False, tx)
         | Some throwaway \<Rightarrow>
             if ExecUnvote \<in> flt then Inl (ErrDriver ExecUnvote)
             else Inr (True, sqlUnvote tx i v)))"

definition Unvote :: "QuoteDB \<Rightarrow> faults \<Rightarrow> int \<Rightarrow> string \<Rightarrow> ((bool \<times> error option) \<times> QuoteDB) outcome" where
  "Unvote q flt i v =
     (case db q of
        None \<Rightarrow> Panic
      | Some d \<Rightarrow>
          Return
            (if BeginTx \<in> flt then ((False, Some (ErrDriver BeginTx)), q)
             else
               (case Unvote_runTx d flt i v of
                  Inl e \<Rightarrow> ((False, Some (Errorf ''failed to rollback due to error (%v): %w'' e)), q)
                | Inr (actuallyDeleted, tx) \<Rightarrow>
                    if Commit \<in> flt
                      then ((False, Some (Errorf ''failed to commit delete vote: %w'' (ErrDriver Commit))), q)
                    else ((actuallyDeleted, None), q\<lparr>db := Some tx\<rparr>))))"

text \<open>The three operations behind one name, for statements about all of them.\<close>

datatype vote_op = OpUpvote | OpDownvote | OpUnvote

fun vote_call :: "vote_op \<Rightarrow> QuoteDB \<Rightarrow> faults \<Rightarrow> int \<Rightarrow> int \<Rightarrow> string \<Rightarrow> ((bool \<times> error option) \<times> QuoteDB) outcome" where
  "vote_call OpUpvote q flt now i v = Upvote q flt now i v"
| "vote_call OpDownvote q flt now i v = Downvote q flt now i v"
| "vote_call OpUnvote q flt now i v = Unvote q flt i v"

section \<open>Statements on the quotes table\<close>

text \<open>\<^verbatim>\<open>quoteThreshold = -2\<close>\<close>

definition quoteThreshold :: int where
  "quoteThreshold = - 2"

text \<open>\<^verbatim>\<open>SELECT COUNT(*) FROM quotes\<close>\<close>

definition sqlGetCount :: "database \<Rightarrow> int" where
  "sqlGetCount d = int (length (quotes d))"

text \<open>The largest value of a 64-bit signed integer, the largest id SQLite can give.\<close>

definition max_rowid :: int where
  "max_rowid = 9223372036854775807"

text \<open>The largest id in the table, if the table has a row.\<close>

definition largest_id :: "quote_row list \<Rightarrow> int option" where
  "largest_id rows =
     (case rows of
        [] \<Rightarrow> None
      | r # rs \<Rightarrow> Some (fold max (map q_id rs) (q_id r)))"

text \<open>The table with one more row.\<close>

definition with_quote :: "database \<Rightarrow> int \<Rightarrow> int \<Rightarrow> string \<Rightarrow> string \<Rightarrow> database" where
  "with_quote d i now author quote =
     d\<lparr>quotes := quotes d @ [\<lparr>q_id = i, q_date = now, q_author = author, q_quote = quote\<rparr>]\<rparr>"

text \<open>
  \<^verbatim>\<open>INSERT INTO quotes (date, author, quote) VALUES(?, ?, ?)\<close> on the schema of
  unnamed/part_001, where the id is \<^verbatim>\<open>INTEGER PRIMARY KEY AUTOINCREMENT\<close>: the new id is one
  more than the largest id ever used (the larger of the counter and the largest id in the
  table), and the insert is refused with \<^verbatim>\<open>SQLITE_FULL\<close> once that is the largest 64-bit
  integer. The result carries the id for \<^verbatim>\<open>LastInsertId\<close>.
\<close>

definition sqlAdd :: "database \<Rightarrow> int \<Rightarrow> string \<Rightarrow> string \<Rightarrow> error + (int \<times> database)" where
  "sqlAdd d now author quote =
     (let top = (case largest_id (quotes d) of None \<Rightarrow> seq d | Some m \<Rightarrow> max (seq d) m) in
      if max_rowid \<le> top then Inl ErrFull
      else Inr (top + 1, (with_quote d (top + 1) now author quote)\<lparr>seq := top + 1\<rparr>))"

text \<open>
  The same statement on the schema of unnamed/part_000 and quotes.go, where the id is a plain
  \<^verbatim>\<open>INTEGER PRIMARY KEY\<close>: 1 for the empty table, otherwise one more than the largest id in
  the table. When the largest id is the largest 64-bit integer, SQLite tries positive ids
  at random: \<open>pick\<close> is the id its search settles on, and the insert is refused with
  \<^verbatim>\<open>SQLITE_FULL\<close> when the search finds no unused id.
\<close>

definition sqlAdd_rowid :: "database \<Rightarrow> int \<Rightarrow> int \<Rightarrow> string \<Rightarrow> string \<Rightarrow> error + (int \<times> database)" where
  "sqlAdd_rowid d pick now author quote =
     (case largest_id (quotes d) of
        None \<Rightarrow> Inr (1, with_quote d 1 now author quote)
      | Some m \<Rightarrow>
          if m < max_rowid then Inr (m + 1, with_quote d (m + 1) now author quote)
          else if 0 < pick \<and> pick \<le> max_rowid \<and> \<not> list_ex (\<lambda>r. q_id r = pick) (quotes d)
            then Inr (pick, with_quote d pick now author quote)
          else Inl ErrFull)"

text \<open>\<^verbatim>\<open>DELETE FROM votes WHERE quote_id = ?\<close>\<close>

definition sqlDelVotes :: "database \<Rightarrow> int \<Rightarrow> database" where
  "sqlDelVotes d i = d\<lparr>votes := filter (\<lambda>r. quote_id r \<noteq> i) (votes d)\<rparr>"

text \<open>
  \<^verbatim>\<open>DELETE FROM quotes WHERE id = ?\<close>, with the number of rows affected. The foreign key of
  \<^verbatim>\<open>votes\<close> has no \<^verbatim>\<open>ON DELETE\<close> action: deleting a quote that a vote row still references
  is refused.
\<close>

definition sqlDel :: "database \<Rightarrow> int \<Rightarrow> error + (int \<times> database)" where
  "sqlDel d i =
     (if list_ex (\<lambda>r. q_id r = i) (quotes d) \<and> list_ex (\<lambda>r. quote_id r = i) (votes d)
        then Inl ErrConstraint
      else Inr (int (length (filter (\<lambda>r. q_id r = i) (quotes d))),
                d\<lparr>quotes := filter (\<lambda>r. q_id r \<noteq> i) (quotes d)\<rparr>))"

text \<open>\<^verbatim>\<open>UPDATE quotes SET quote = ? WHERE id = ?\<close>, with the number of rows affected.\<close>

definition sqlEdit :: "database \<Rightarrow> string \<Rightarrow> int \<Rightarrow> int \<times> database" where
  "sqlEdit d quote i =
     (int (length (filter (\<lambda>r. q_id r = i) (quotes d))),
      d\<lparr>quotes := map (\<lambda>r. if q_id r = i then r\<lparr>q_quote := quote\<rparr> else r) (quotes d)\<rparr>)"

text \<open>
  The select list shared by \<^verbatim>\<open>sqlGetByID\<close>, \<^verbatim>\<open>sqlGetRandom\<close>, \<^verbatim>\<open>sqlGetAll\<close> and
  \<^verbatim>\<open>sqlGetAllFiltered\<close>: the columns of the quote and the two correlated counts, scanned
  into a \<^verbatim>\<open>Quote\<close>.
\<close>

definition row_Quote :: "database \<Rightarrow> quote_row \<Rightarrow> Quote" where
  "row_Quote d r =
     \<lparr>ID = q_id r, Date = q_date r, Author = q_author r, QuoteText = q_quote r,
      Upvotes = sqlGetUpvotes d (q_id r), Downvotes = sqlGetDownvotes d (q_id r)\<rparr>"

text \<open>The condition \<^verbatim>\<open>WHERE (upvotes - downvotes) > -2\<close>.\<close>

definition above_threshold :: "Quote \<Rightarrow> bool" where
  "above_threshold x = (Upvotes x - Downvotes x > quoteThreshold)"

text \<open>\<^verbatim>\<open>sqlGetByID\<close>: the row with the id, if any.\<close>

definition sqlGetByID :: "database \<Rightarrow> int \<Rightarrow> Quote option" where
  "sqlGetByID d i =
     (case filter (\<lambda>r. q_id r = i) (quotes d) of
        [] \<Rightarrow> None
      | r # _ \<Rightarrow> Some (row_Quote d r))"

text \<open>
  \<^verbatim>\<open>sqlGetRandom\<close>. \<open>candidates\<close> are the rows that pass the \<^verbatim>\<open>WHERE\<close> clause.
  \<^verbatim>\<open>ORDER BY RANDOM() LIMIT 1\<close> draws one number per candidate row, sorts by it and returns
  the first row; \<open>rnd k\<close> is the number drawn for the \<open>k\<close>-th candidate. Rows that draw
  the same number keep their table order.
\<close>

definition candidates :: "database \<Rightarrow> Quote list" where
  "candidates d = filter above_threshold (map (row_Quote d) (quotes d))"

definition sqlGetRandom :: "database \<Rightarrow> (nat \<Rightarrow> int) \<Rightarrow> Quote option" where
  "sqlGetRandom d rnd =
     (case sort_key fst (zip (map rnd [0..<length (candidates d)]) (candidates d)) of
        [] \<Rightarrow> None
      | (k, x) # _ \<Rightarrow> Some x)"

text \<open>
  The runs of \<^verbatim>\<open>RANDOM()\<close> over \<open>n\<close> candidate rows in which no two rows draw the same
  number, the numbers being taken from \<open>V\<close>; the list holds the draw of each row, in table
  order. \<^verbatim>\<open>RANDOM()\<close> draws 64-bit integers, so two equal draws are rare; how SQLite orders
  rows with equal draws is not fixed by the query.
\<close>

definition tie_free_draws :: "nat \<Rightarrow> int set \<Rightarrow> int list set" where
  "tie_free_draws n V = {ks. length ks = n \<and> distinct ks \<and> set ks \<subseteq> V}"

text \<open>The draws of rows \<open>j\<close> and \<open>k\<close> exchanged.\<close>

definition swap_at :: "nat \<Rightarrow> nat \<Rightarrow> 'a list \<Rightarrow> 'a list" where
  "swap_at j k ks = ks[j := ks ! k, k := ks ! j]"

text \<open>\<^verbatim>\<open>sqlGetAll\<close>: every row, \<^verbatim>\<open>ORDER BY q.id desc\<close>.\<close>

definition sqlGetAll :: "database \<Rightarrow> Quote list" where
  "sqlGetAll d = rev (sort_key ID (map (row_Quote d) (quotes d)))"

text \<open>\<^verbatim>\<open>sqlGetAllFiltered\<close>: the candidates, \<^verbatim>\<open>ORDER BY q.id desc\<close>.\<close>

definition sqlGetAllFiltered :: "database \<Rightarrow> Quote list" where
  "sqlGetAllFiltered d = rev (sort_key ID (candidates d))"

section \<open>Opening, counting and closing (unnamed/part_001)\<close>

text \<open>\<^verbatim>\<open>strings.SplitN(webAuth, ":", 2)\<close> when it yields two parts.\<close>

definition split_auth :: "string \<Rightarrow> (string \<times> string) option" where
  "split_auth webAuth =
     (if CHR '':'' \<in> set webAuth
        then Some (takeWhile (\<lambda>c. c \<noteq> CHR '':'') webAuth, tl (dropWhile (\<lambda>c. c \<noteq> CHR '':'') webAuth))
      else None)"

text \<open>
  \<^verbatim>\<open>OpenDB\<close>. \<open>contents\<close> is the content of the SQLite file at \<^verbatim>\<open>filename\<close> (both tables empty
  for a new file); the five \<^verbatim>\<open>CREATE ... IF NOT EXISTS\<close> statements of \<^verbatim>\<open>createTable\<close> do not
  change it. \<open>bcrypt\<close> stands for \<^verbatim>\<open>bcrypt.GenerateFromPassword\<close>. On a failure the handle is
  closed and no engine is returned.
\<close>

definition OpenDB :: "(string \<Rightarrow> string) \<Rightarrow> database \<Rightarrow> faults \<Rightarrow> string \<Rightarrow> error + QuoteDB" where
  "OpenDB bcrypt contents flt webAuth =
     (let (user, pass) = (case split_auth webAuth of None \<Rightarrow> ([], []) | Some up \<Rightarrow> up);
          hash = (case split_auth webAuth of None \<Rightarrow> [] | Some up \<Rightarrow> bcrypt (snd up)) in
      if split_auth webAuth \<noteq> None \<and> Bcrypt \<in> flt
        then Inl (Errorf ''failed to bcrypt web password: %w'' (ErrDriver Bcrypt))
      else if SqlOpen \<in> flt then Inl (ErrDriver SqlOpen)
      else if CreateTable \<in> flt
        then Inl (Errorf ''error running sql statement: sql: %s error: %v'' (ErrDriver CreateTable))
      else if GetCount \<in> flt then Inl (ErrDriver GetCount)
      else Inr \<lparr>db = Some contents, webuser = user, webpass = pass, webhash = hash,
                nQuotes = sqlGetCount contents\<rparr>)"

text \<open>\<^verbatim>\<open>NQuotes\<close> reads the cached count under the read lock.\<close>

definition NQuotes :: "QuoteDB \<Rightarrow> int" where
  "NQuotes q = nQuotes q"

text \<open>\<^verbatim>\<open>getCount\<close> scans \<^verbatim>\<open>SELECT COUNT(*)\<close> into \<^verbatim>\<open>q.nQuotes\<close>.\<close>

definition getCount :: "QuoteDB \<Rightarrow> faults \<Rightarrow> (error option \<times> QuoteDB) outcome" where
  "getCount q flt =
     (case db q of
        None \<Rightarrow> Panic
      | Some d \<Rightarrow>
          Return (if GetCount \<in> flt then (Some (ErrDriver GetCount), q)
                  else (None, q\<lparr>nQuotes := sqlGetCount d\<rparr>)))"

text \<open>\<^verbatim>\<open>Close\<close>: \<^verbatim>\<open>q.db.Close()\<close>, then \<^verbatim>\<open>q.db = nil\<close>.\<close>

definition Close :: "QuoteDB \<Rightarrow> faults \<Rightarrow> (error option \<times> QuoteDB) outcome" where
  "Close q flt =
     (case db q of
        None \<Rightarrow> Panic
      | Some d \<Rightarrow>
          Return (if CloseDB \<in> flt then Some (ErrDriver CloseDB) else None, q\<lparr>db := None\<rparr>))"

section \<open>Adding, reading, deleting and editing quotes (unnamed/part_001)\<close>

text \<open>
  \<^verbatim>\<open>AddQuote\<close>, with named results \<^verbatim>\<open>(id int64, err error)\<close>: a failed \<^verbatim>\<open>Exec\<close> (a driver
  failure, or the insert refused by SQLite) returns before the count is touched; a failed
  \<^verbatim>\<open>LastInsertId\<close> sets the id to 0 and still counts the row that was inserted.
\<close>

definition AddQuote :: "QuoteDB \<Rightarrow> faults \<Rightarrow> int \<Rightarrow> string \<Rightarrow> string \<Rightarrow> ((int \<times> error option) \<times> QuoteDB) outcome" where
  "AddQuote q flt now author quote =
     (case db q of
        None \<Rightarrow> Panic
      | Some d \<Rightarrow>
          Return
            (if ExecAdd \<in> flt then ((0, Some (ErrDriver ExecAdd)), q)
             else
               (case sqlAdd d now author quote of
                  Inl e \<Rightarrow> ((0, Some e), q)
                | Inr (i, d') \<Rightarrow>
                    ((if LastInsertId \<in> flt then (0, Some (ErrDriver LastInsertId)) else (i, None)),
                     q\<lparr>db := Some d', nQuotes := nQuotes q + 1\<rparr>))))"

text \<open>\<^verbatim>\<open>RandomQuote\<close> takes no argument; it runs \<^verbatim>\<open>sqlGetRandom\<close>.\<close>

definition RandomQuote :: "QuoteDB \<Rightarrow> faults \<Rightarrow> (nat \<Rightarrow> int) \<Rightarrow> (Quote \<times> error option) outcome" where
  "RandomQuote q flt rnd =
     (case db q of
        None \<Rightarrow> Panic
      | Some d \<Rightarrow>
          Return
            (if GetRandom \<in> flt then (zero_Quote, Some (ErrDriver GetRandom))
             else
               (case sqlGetRandom d rnd of
                  None \<Rightarrow> (zero_Quote, Some ErrNoRows)
                | Some x \<Rightarrow> (x, None))))"

definition GetQuote :: "QuoteDB \<Rightarrow> faults \<Rightarrow> int \<Rightarrow> (Quote \<times> error option) outcome" where
  "GetQuote q flt i =
     (case db q of
        None \<Rightarrow> Panic
      | Some d \<Rightarrow>
          Return
            (if GetByID \<in> flt then (zero_Quote, Some (ErrDriver GetByID))
             else
               (case sqlGetByID d i of
                  None \<Rightarrow> (zero_Quote, Some ErrNoRows)
                | Some x \<Rightarrow> (x, None))))"

text \<open>The closure \<^verbatim>\<open>runTx\<close> of \<^verbatim>\<open>DelQuote\<close>; it returns \<^verbatim>\<open>deleted\<close> with the view.\<close>

definition DelQuote_runTx :: "database \<Rightarrow> faults \<Rightarrow> int \<Rightarrow> error + (int \<times> database)" where
  "DelQuote_runTx tx flt i =
     (if ExecDelVotes \<in> flt
        then Inl (Errorf ''failed deleting quote votes: %w'' (ErrDriver ExecDelVotes))
      else if ExecDel \<in> flt
        then Inl (Errorf ''failed deleting quote: %w'' (ErrDriver ExecDel))
      else
        (case sqlDel (sqlDelVotes tx i) i of
           Inl e \<Rightarrow> Inl (Errorf ''failed deleting quote: %w'' e)
         | Inr (deleted, tx2) \<Rightarrow>
             if RowsAffected \<in> flt
               then Inl (Errorf ''failed getting rows affected: %w'' (ErrDriver RowsAffected))
             else Inr (deleted, tx2)))"

definition DelQuote :: "QuoteDB \<Rightarrow> faults \<Rightarrow> int \<Rightarrow> ((bool \<times> error option) \<times> QuoteDB) outcome" where
  "DelQuote q flt i =
     (case db q of
        None \<Rightarrow> Panic
      | Some d \<Rightarrow>
          Return
            (if BeginTx \<in> flt then ((False, Some (ErrDriver BeginTx)), q)
             else
               (case DelQuote_runTx d flt i of
                  Inl e \<Rightarrow> ((False, Some (Errorf ''failed to rollback due to error (%v): %w'' e)), q)
                | Inr (deleted, tx) \<Rightarrow>
                    if Commit \<in> flt
                      then ((False, Some (Errorf ''failed to commit delquote: %w'' (ErrDriver Commit))), q)
                    else if deleted \<noteq> 1 then ((False, None), q\<lparr>db := Some tx\<rparr>)
                    else ((True, None), q\<lparr>db := Some tx, nQuotes := nQuotes q - 1\<rparr>))))"

definition EditQuote :: "QuoteDB \<Rightarrow> faults \<Rightarrow> int \<Rightarrow> string \<Rightarrow> ((bool \<times> error option) \<times> QuoteDB) outcome" where
  "EditQuote q flt i quote =
     (case db q of
        None \<Rightarrow> Panic
      | Some d \<Rightarrow>
          Return
            (if ExecEdit \<in> flt then ((False, Some (ErrDriver ExecEdit)), q)
             else
               (case sqlEdit d quote i of
                  (r, d') \<Rightarrow>
                    if RowsAffected \<in> flt
                      then ((False, Some (ErrDriver RowsAffected)), q\<lparr>db := Some d'\<rparr>)
                    else ((r = 1, None), q\<lparr>db := Some d'\<rparr>))))"

text \<open>
  The loop \<^verbatim>\<open>for rows.Next()\<close> of \<^verbatim>\<open>GetAll\<close>: each row is scanned and appended; a failed scan
  closes the rows and returns the error. \<open>qs\<close> is the slice \<^verbatim>\<open>quotes\<close>.
\<close>

fun GetAll_rows :: "faults \<Rightarrow> Quote list \<Rightarrow> Quote list \<Rightarrow> error + Quote list" where
  "GetAll_rows flt [] qs = Inr qs"
| "GetAll_rows flt (row # rows) qs =
     (if Scan \<in> flt
        then Inl (if RowsClose \<in> flt
                    then Errorf ''failed to scan quotes (%w) but also close quotes: %v'' (ErrDriver Scan)
                  else Errorf ''failed to scan quotes: %w'' (ErrDriver Scan))
      else GetAll_rows flt rows (qs @ [row]))"

definition GetAll :: "QuoteDB \<Rightarrow> faults \<Rightarrow> bool \<Rightarrow> (Quote list \<times> error option) outcome" where
  "GetAll q flt filterLow =
     (case db q of
        None \<Rightarrow> Panic
      | Some d \<Rightarrow>
          Return
            (if QueryAll \<in> flt then ([], Some (ErrDriver QueryAll))
             else
               (case GetAll_rows flt (if filterLow then sqlGetAllFiltered d else sqlGetAll d) [] of
                  Inl e \<Rightarrow> ([], Some e)
                | Inr qs \<Rightarrow>
                    if RowsClose \<in> flt
                      then ([], Some (Errorf ''error closing rows in getall: %w'' (ErrDriver RowsClose)))
                    else if RowsErr \<in> flt
                      then ([], Some (Errorf ''error reading all rows: %w'' (ErrDriver RowsErr)))
                    else (qs, None))))"

text \<open>\<^verbatim>\<open>Votes\<close>: two count queries, outside any transaction, with no look at the quotes table.\<close>

definition Votes :: "QuoteDB \<Rightarrow> faults \<Rightarrow> int \<Rightarrow> (int \<times> int \<times> error option) outcome" where
  "Votes q flt i =
     (case db q of
        None \<Rightarrow> Panic
      | Some d \<Rightarrow>
          Return
            (if GetUpvotes \<in> flt then (0, 0, Some (ErrDriver GetUpvotes))
             else if GetDownvotes \<in> flt then (0, 0, Some (ErrDriver GetDownvotes))
             else (sqlGetUpvotes d i, sqlGetDownvotes d i, None)))"

section \<open>The earlier copies: quotes.go and unnamed/part_000\<close>

text \<open>
  \<^verbatim>\<open>Votes\<close> of quotes.go (lines 464-473): the second query is \<^verbatim>\<open>sqlGetUpvotes\<close> again,
  scanned into \<^verbatim>\<open>down\<close>.
\<close>

definition Votes_quotes_go :: "QuoteDB \<Rightarrow> faults \<Rightarrow> int \<Rightarrow> (int \<times> int \<times> error option) outcome" where
  "Votes_quotes_go q flt i =
     (case db q of
        None \<Rightarrow> Panic
      | Some d \<Rightarrow>
          Return
            (if GetUpvotes \<in> flt then (0, 0, Some (ErrDriver GetUpvotes))
             else if GetDownvotes \<in> flt then (0, 0, Some (ErrDriver GetDownvotes))
             else (sqlGetUpvotes d i, sqlGetUpvotes d i, None)))"

text \<open>
  \<^verbatim>\<open>DelQuote\<close> of quotes.go (lines 246-263): one \<^verbatim>\<open>DELETE FROM quotes\<close> outside any
  transaction; the vote rows are not deleted. The statement is committed when \<^verbatim>\<open>Exec\<close>
  returns, so a failing \<^verbatim>\<open>RowsAffected\<close> comes after the row is gone.
\<close>

definition DelQuote_quotes_go :: "QuoteDB \<Rightarrow> faults \<Rightarrow> int \<Rightarrow> ((bool \<times> error option) \<times> QuoteDB) outcome" where
  "DelQuote_quotes_go q flt i =
     (case db q of
        None \<Rightarrow> Panic
      | Some d \<Rightarrow>
          Return
            (if ExecDel \<in> flt then ((False, Some (ErrDriver ExecDel)), q)
             else
               (case sqlDel d i of
                  Inl e \<Rightarrow> ((False, Some e), q)
                | Inr (r, d') \<Rightarrow>
                    if RowsAffected \<in> flt
                      then ((False, Some (ErrDriver RowsAffected)), q\<lparr>db := Some d'\<rparr>)
                    else if r = 1 then ((True, None), q\<lparr>db := Some d', nQuotes := nQuotes q - 1\<rparr>)
                    else ((False, None), q\<lparr>db := Some d'\<rparr>))))"

text \<open>
  \<^verbatim>\<open>AddQuote\<close> of unnamed/part_000 (lines 85-92): \<^verbatim>\<open>q.nQuotes++\<close> follows the \<^verbatim>\<open>Exec\<close> with no
  look at its error, whether the driver failed or SQLite refused the insert. \<open>pick\<close> is the
  id SQLite's random search settles on when the largest id is taken (see \<open>sqlAdd_rowid\<close>).
\<close>

definition AddQuote_part_000 :: "QuoteDB \<Rightarrow> faults \<Rightarrow> int \<Rightarrow> string \<Rightarrow> string \<Rightarrow> int \<Rightarrow> (error option \<times> QuoteDB) outcome" where
  "AddQuote_part_000 q flt now author quote pick =
     (case db q of
        None \<Rightarrow> Panic
      | Some d \<Rightarrow>
          Return
            (if ExecAdd \<in> flt then (Some (ErrDriver ExecAdd), q\<lparr>nQuotes := nQuotes q + 1\<rparr>)
             else
               (case sqlAdd_rowid d pick now author quote of
                  Inl e \<Rightarrow> (Some e, q\<lparr>nQuotes := nQuotes q + 1\<rparr>)
                | Inr (i, d') \<Rightarrow> (None, q\<lparr>db := Some d', nQuotes := nQuotes q + 1\<rparr>))))"

section \<open>The web page (unnamed/part_002)\<close>

text \<open>
  The comparison given to \<^verbatim>\<open>sort.Slice\<close> in \<^verbatim>\<open>quotesRoot\<close>, on the two elements it is asked
  about.
\<close>

definition votesort_less :: "Quote \<Rightarrow> Quote \<Rightarrow> bool" where
  "votesort_less iquote jquote =
     (let ivotes = Upvotes iquote - Downvotes iquote;
          jvotes = Upvotes jquote - Downvotes jquote
      in ivotes > jvotes \<or> (ivotes = jvotes \<and> ID iquote > ID jquote))"

text \<open>
  Go's \<^verbatim>\<open>sort.Slice(xs, less)\<close> sorts the slice by \<^verbatim>\<open>less\<close> and promises no stability. It is
  library code; it is modelled by an insertion sort, which places an element before the
  first one that does not precede it.
\<close>

fun insert_less :: "('a \<Rightarrow> 'a \<Rightarrow> bool) \<Rightarrow> 'a \<Rightarrow> 'a list \<Rightarrow> 'a list" where
  "insert_less lessf x [] = [x]"
| "insert_less lessf x (y # ys) = (if lessf y x then y # insert_less lessf x ys else x # y # ys)"

definition sort_Slice :: "('a \<Rightarrow> 'a \<Rightarrow> bool) \<Rightarrow> 'a list \<Rightarrow> 'a list" where
  "sort_Slice lessf xs = foldr (insert_less lessf) xs []"

text \<open>The data handed to the template (the two link attributes are left out).\<close>

record page_data =
  data_NQuotes :: int
  data_Quotes :: "Quote list"

datatype response =
    StatusUnauthorized
  | StatusNotFound
  | StatusInternalServerError
  | StatusOK page_data

text \<open>
  \<^verbatim>\<open>quotesRoot\<close>. \<open>basic\<close> is the result of \<^verbatim>\<open>r.BasicAuth()\<close>, \<open>compare hash pwd\<close> says
  whether \<^verbatim>\<open>bcrypt.CompareHashAndPassword\<close> accepts, \<open>path\<close> is \<^verbatim>\<open>r.URL.Path\<close>, and \<open>all\<close> and
  \<open>votesort\<close> are the two query parameters.
\<close>

definition quotesRoot ::
  "QuoteDB \<Rightarrow> faults \<Rightarrow> (string \<Rightarrow> string \<Rightarrow> bool) \<Rightarrow> (string \<times> string) option \<Rightarrow>
     string \<Rightarrow> string \<Rightarrow> string \<Rightarrow> response outcome" where
  "quotesRoot q flt compare basic path all votesort =
     (if (webuser q \<noteq> [] \<or> webhash q \<noteq> []) \<and>
         (case basic of
            None \<Rightarrow> True
          | Some (user, pwd) \<Rightarrow> webuser q \<noteq> user \<or> \<not> compare (webhash q) pwd)
        then Return StatusUnauthorized
      else if path \<noteq> ''/'' then Return StatusNotFound
      else
        (case GetAll q flt (\<not> (all = ''true'')) of
           Panic \<Rightarrow> Panic
         | Return (qs, Some err) \<Rightarrow> Return StatusInternalServerError
         | Return (qs, None) \<Rightarrow>
             Return
               (if TmplExecute \<in> flt then StatusInternalServerError
                else StatusOK
                       \<lparr>data_NQuotes = int (length qs),
                        data_Quotes = (if votesort = ''true'' then sort_Slice votesort_less qs else qs)\<rparr>)))"

section \<open>The vote state of a pair\<close>

text \<open>
  The directions stored for a (quote, voter) pair, in table order. The three states of the
  specification are the ledgers \<open>[]\<close> (none), \<open>[1]\<close> (up) and \<open>[-1]\<close> (down).
\<close>

definition ledger :: "database \<Rightarrow> int \<Rightarrow> string \<Rightarrow> int list" where
  "ledger d i v = map vote (filter (for_pair i v) (votes d))"

datatype vstate = StNone | StUp | StDown

definition state_ledger :: "vstate \<Rightarrow> int list" where
  "state_ledger st = (case st of StNone \<Rightarrow> [] | StUp \<Rightarrow> [1] | StDown \<Rightarrow> [- 1])"

definition vote_state :: "database \<Rightarrow> int \<Rightarrow> string \<Rightarrow> vstate option" where
  "vote_state d i v =
     (if ledger d i v = [] then Some StNone
      else if ledger d i v = [1] then Some StUp
      else if ledger d i v = [- 1] then Some StDown
      else None)"

text \<open>
  The transition table as the specification words it (section 4.3): the state reached and
  the boolean returned. It is written from the specification, to be compared with the code.
\<close>

fun spec_transition :: "vote_op \<Rightarrow> vstate \<Rightarrow> vstate \<times> bool" where
  "spec_transition OpUpvote StNone = (StUp, True)"
| "spec_transition OpUpvote StUp = (StUp, False)"
| "spec_transition OpUpvote StDown = (StUp, True)"
| "spec_transition OpDownvote StNone = (StDown, True)"
| "spec_transition OpDownvote StUp = (StDown, True)"
| "spec_transition OpDownvote StDown = (StDown, False)"
| "spec_transition OpUnvote StNone = (StNone, False)"
| "spec_transition OpUnvote StUp = (StNone, True)"
| "spec_transition OpUnvote StDown = (StNone, True)"

text \<open>The table after the pair's rows are deleted and one row is inserted for it.\<close>

definition voted :: "database \<Rightarrow> int \<Rightarrow> string \<Rightarrow> int \<Rightarrow> int \<Rightarrow> database" where
  "voted d i v x now =
     d\<lparr>votes := filter (\<lambda>r. \<not> for_pair i v r) (votes d) @
                  [\<lparr>quote_id = i, voter = v, vote = x, v_date = now\<rparr>]\<rparr>"

text \<open>The ledger an operation leaves when it changes the table.\<close>

fun op_ledger :: "vote_op \<Rightarrow> int list" where
  "op_ledger OpUpvote = [1]"
| "op_ledger OpDownvote = [- 1]"
| "op_ledger OpUnvote = []"

text \<open>
  A sequence of calls by one voter on one quote, each with the calls that fail during it
  and its clock reading. \<open>last_change\<close> is the operation of the last call of the sequence
  that changed the engine, if any.
\<close>

type_synonym vote_calls = "(vote_op \<times> faults \<times> int) list"

fun run_calls :: "vote_calls \<Rightarrow> int \<Rightarrow> string \<Rightarrow> QuoteDB \<Rightarrow> QuoteDB" where
  "run_calls [] i v q = q"
| "run_calls ((opn, flt, now) # cs) i v q =
     (case vote_call opn q flt now i v of
        Panic \<Rightarrow> q
      | Return (r, q') \<Rightarrow> run_calls cs i v q')"

fun last_change :: "vote_calls \<Rightarrow> int \<Rightarrow> string \<Rightarrow> QuoteDB \<Rightarrow> vote_op option" where
  "last_change [] i v q = None"
| "last_change ((opn, flt, now) # cs) i v q =
     (case vote_call opn q flt now i v of
        Panic \<Rightarrow> None
      | Return (r, q') \<Rightarrow>
          (case last_change cs i v q' of
             Some later \<Rightarrow> Some later
           | None \<Rightarrow> if q' = q then None else Some opn))"

text \<open>
  The same two notions read off the specification's table alone: the state a sequence of
  operations leads to, and the last operation of the sequence that the table marks as
  applied (returning true), if any.
\<close>

fun spec_run :: "vote_op list \<Rightarrow> vstate \<Rightarrow> vstate" where
  "spec_run [] st = st"
| "spec_run (opn # ops) st = spec_run ops (fst (spec_transition opn st))"

fun spec_last_applied :: "vote_op list \<Rightarrow> vstate \<Rightarrow> vote_op option" where
  "spec_last_applied [] st = None"
| "spec_last_applied (opn # ops) st =
     (case spec_last_applied ops (fst (spec_transition opn st)) of
        Some later \<Rightarrow> Some later
      | None \<Rightarrow> if snd (spec_transition opn st) then Some opn else None)"

text \<open>The direction an operation establishes when it is applied.\<close>

fun op_state :: "vote_op \<Rightarrow> vstate" where
  "op_state OpUpvote = StUp"
| "op_state OpDownvote = StDown"
| "op_state OpUnvote = StNone"

section \<open>Sample data\<close>

definition store_empty :: database where
  "store_empty = \<lparr>quotes = [], votes = [], seq = 0\<rparr>"

definition store_one :: database where
  "store_one = \<lparr>quotes = [\<lparr>q_id = 1, q_date = 100, q_author = ''Ada'', q_quote = ''Q1''\<rparr>],
                votes = [], seq = 1\<rparr>"

definition engine :: "database \<Rightarrow> QuoteDB" where
  "engine d = \<lparr>db = Some d, webuser = [], webpass = [], webhash = [], nQuotes = int (length (quotes d))\<rparr>"

definition store_voted :: database where
  "store_voted = \<lparr>quotes = [\<lparr>q_id = 1, q_date = 100, q_author = ''Ada'', q_quote = ''Q1''\<rparr>],
                  votes = [\<lparr>quote_id = 1, voter = ''x'', vote = - 1, v_date = 101\<rparr>], seq = 1\<rparr>"

definition store_upvoted :: database where
  "store_upvoted = \<lparr>quotes = [\<lparr>q_id = 1, q_date = 100, q_author = ''Ada'', q_quote = ''Q1''\<rparr>],
                    votes = [\<lparr>quote_id = 1, voter = ''x'', vote = 1, v_date = 101\<rparr>], seq = 1\<rparr>"

definition store_low :: database where
  "store_low = \<lparr>quotes = [\<lparr>q_id = 1, q_date = 100, q_author = ''Ada'', q_quote = ''Q1''\<rparr>],
                votes = [\<lparr>quote_id = 1, voter = ''x'', vote = - 1, v_date = 101\<rparr>,
                         \<lparr>quote_id = 1, voter = ''y'', vote = - 1, v_date = 102\<rparr>,
                         \<lparr>quote_id = 1, voter = ''z'', vote = - 1, v_date = 103\<rparr>], seq = 1\<rparr>"

definition store_two :: database where
  "store_two = \<lparr>quotes = [\<lparr>q_id = 1, q_date = 100, q_author = ''Ada'', q_quote = ''Q1''\<rparr>,
                          \<lparr>q_id = 2, q_date = 200, q_author = ''Bob'', q_quote = ''Q2''\<rparr>],
                votes = [\<lparr>quote_id = 1, voter = ''x'', vote = 1, v_date = 101\<rparr>], seq = 2\<rparr>"

definition quote_one :: Quote where
  "quote_one = \<lparr>ID = 1, Date = 100, Author = ''Ada'', QuoteText = ''Q1'', Upvotes = 1, Downvotes = 0\<rparr>"

definition quote_two :: Quote where
  "quote_two = \<lparr>ID = 2, Date = 200, Author = ''Bob'', QuoteText = ''Q2'', Upvotes = 0, Downvotes = 0\<rparr>"

definition store_mixed :: database where
  "store_mixed = \<lparr>quotes = [\<lparr>q_id = 1, q_date = 100, q_author = ''Ada'', q_quote = ''Q1''\<rparr>,
                            \<lparr>q_id = 2, q_date = 200, q_author = ''Bob'', q_quote = ''Q2''\<rparr>,
                            \<lparr>q_id = 3, q_date = 300, q_author = ''Cy'', q_quote = ''Q3''\<rparr>],
                  votes = [\<lparr>quote_id = 1, voter = ''x'', vote = - 1, v_date = 101\<rparr>,
                           \<lparr>quote_id = 1, voter = ''y'', vote = - 1, v_date = 102\<rparr>,
                           \<lparr>quote_id = 1, voter = ''z'', vote = - 1, v_date = 103\<rparr>,
                           \<lparr>quote_id = 2, voter = ''x'', vote = 1, v_date = 201\<rparr>], seq = 3\<rparr>"

definition mixed_two :: Quote where
  "mixed_two = \<lparr>ID = 2, Date = 200, Author = ''Bob'', QuoteText = ''Q2'', Upvotes = 1, Downvotes = 0\<rparr>"

definition mixed_three :: Quote where
  "mixed_three = \<lparr>ID = 3, Date = 300, Author = ''Cy'', QuoteText = ''Q3'', Upvotes = 0, Downvotes = 0\<rparr>"

text \<open>A password check that accepts nothing.\<close>

definition accept_none :: "string \<Rightarrow> string \<Rightarrow> bool" where
  "accept_none hash pwd = False"

text \<open>A run of \<^verbatim>\<open>RANDOM()\<close> that draws 0 every time.\<close>

definition draws_zero :: "nat \<Rightarrow> int" where
  "draws_zero k = 0"

section \<open>The constraints of the schema\<close>

text \<open>
  \<^verbatim>\<open>FOREIGN KEY (quote_id) REFERENCES quotes (id)\<close>: every vote row names a quote of the table.
  \<^verbatim>\<open>id INTEGER PRIMARY KEY\<close>: no two quotes share an id.
\<close>

definition fk_ok :: "database \<Rightarrow> bool" where
  "fk_ok d = list_all (\<lambda>r. list_ex (\<lambda>q. q_id q = quote_id r) (quotes d)) (votes d)"

definition pk_ok :: "database \<Rightarrow> bool" where
  "pk_ok d = distinct (map q_id (quotes d))"

text \<open>The database without quote \<open>i\<close> and without the votes on it.\<close>

definition cascaded :: "database \<Rightarrow> int \<Rightarrow> database" where
  "cascaded d i =
     d\<lparr>votes := filter (\<lambda>r. quote_id r \<noteq> i) (votes d),
       quotes := filter (\<lambda>r. q_id r \<noteq> i) (quotes d)\<rparr>"

text \<open>The sites of \<^verbatim>\<open>DelQuote\<close> (unnamed/part_001).\<close>

definition DelQuote_sites :: "site set" where
  "DelQuote_sites = {BeginTx, ExecDelVotes, ExecDel, RowsAffected, Commit}"

text \<open>The cached count mirrors the table, on an open engine whose ids are distinct.\<close>

definition count_ok :: "QuoteDB \<Rightarrow> bool" where
  "count_ok q = (case db q of None \<Rightarrow> False | Some d \<Rightarrow> pk_ok d \<and> NQuotes q = sqlGetCount d)"

text \<open>A sequence of \<^verbatim>\<open>AddQuote\<close> and \<^verbatim>\<open>DelQuote\<close> calls (unnamed/part_001).\<close>

datatype store_call = CallAdd faults int string string | CallDel faults int

fun store_step :: "store_call \<Rightarrow> QuoteDB \<Rightarrow> QuoteDB" where
  "store_step (CallAdd flt now author quote) q =
     (case AddQuote q flt now author quote of Panic \<Rightarrow> q | Return (r, q') \<Rightarrow> q')"
| "store_step (CallDel flt i) q =
     (case DelQuote q flt i of Panic \<Rightarrow> q | Return (r, q') \<Rightarrow> q')"

definition run_store :: "store_call list \<Rightarrow> QuoteDB \<Rightarrow> QuoteDB" where
  "run_store cs q = fold store_step cs q"

section \<open>Facts about the statements and the transactions\<close>

lemma list_ex_filter: "list_ex P xs \<longleftrightarrow> filter P xs \<noteq> []"
  by (induction xs) auto

lemma sqlHasQuote_iff: "sqlHasQuote d i \<noteq> 0 \<longleftrightarrow> list_ex (\<lambda>r. q_id r = i) (quotes d)"
  by (simp add: sqlHasQuote_def)

lemma ledger_Nil: "ledger d i v = [] \<longleftrightarrow> filter (for_pair i v) (votes d) = []"
  by (simp add: ledger_def)

lemma ledger_single: "ledger d i v = [x] \<longleftrightarrow> (\<exists>r. filter (for_pair i v) (votes d) = [r] \<and> vote r = x)"
  by (auto simp: ledger_def)

lemma sqlHasVote_ledger: "sqlHasVote d i v = (case ledger d i v of [] \<Rightarrow> None | x # _ \<Rightarrow> Some x)"
  by (simp add: sqlHasVote_def ledger_def split: list.splits)

lemma ledger_sqlUnvote [simp]: "ledger (sqlUnvote d i v) i v = []"
  by (simp add: ledger_def sqlUnvote_def)

lemma quotes_sqlUnvote [simp]: "quotes (sqlUnvote d i v) = quotes d"
  by (simp add: sqlUnvote_def)

lemma others_sqlUnvote [simp]:
  "filter (\<lambda>r. \<not> for_pair i v r) (votes (sqlUnvote d i v)) = filter (\<lambda>r. \<not> for_pair i v r) (votes d)"
  by (simp add: sqlUnvote_def)

lemma insert_vote_ok:
  assumes "ledger d i v = []" "sqlHasQuote d i \<noteq> 0"
  shows "insert_vote d \<lparr>quote_id = i, voter = v, vote = x, v_date = now\<rparr>
           = Inr (d\<lparr>votes := votes d @ [\<lparr>quote_id = i, voter = v, vote = x, v_date = now\<rparr>]\<rparr>)"
  using assms by (simp add: insert_vote_def list_ex_filter ledger_Nil sqlHasQuote_def split: if_splits)

lemma sqlHasQuote_sqlUnvote [simp]: "sqlHasQuote (sqlUnvote d i v) j = sqlHasQuote d j"
  by (simp add: sqlHasQuote_def)

lemma Upvote_runTx_cases:
  assumes "sqlHasQuote d i \<noteq> 0" "length (ledger d i v) \<le> 1"
  shows "Upvote_runTx d {} now i v =
     (case ledger d i v of [] \<Rightarrow> Inr (False, voted d i v 1 now)
      | x # _ \<Rightarrow> if x > 0 then Inr (True, d) else if x < 0 then Inr (False, voted d i v 1 now)
                 else Inl (Errorf ''failed to execute upvote: %w'' ErrConstraint))"
proof (cases "ledger d i v")
  case Nil
  then have f: "filter (\<lambda>r. \<not> for_pair i v r) (votes d) = votes d"
    by (simp add: ledger_Nil filter_empty_conv filter_id_conv)
  show ?thesis using Nil assms(1) insert_vote_ok[OF Nil assms(1), of 1 now]
    by (simp add: Upvote_runTx_def sqlHasVote_ledger sqlUpvote_def voted_def f)
next
  case (Cons x xs)
  then have xs: "xs = []" using assms(2) by simp
  have l: "ledger (sqlUnvote d i v) i v = []" by simp
  have h: "sqlHasQuote (sqlUnvote d i v) i \<noteq> 0" using assms(1) by simp
  have ne: "list_ex (for_pair i v) (votes d)" using Cons by (auto simp: list_ex_filter ledger_def)
  have ins0: "insert_vote d \<lparr>quote_id = i, voter = v, vote = 1, v_date = now\<rparr> = Inl ErrConstraint"
    using ne by (simp add: insert_vote_def)
  have v: "voted d i v 1 now = (sqlUnvote d i v)\<lparr>votes := votes (sqlUnvote d i v) @ [\<lparr>quote_id = i, voter = v, vote = 1, v_date = now\<rparr>]\<rparr>"
    by (simp add: voted_def sqlUnvote_def)
  consider "x > 0" | "x < 0" | "x = 0" by linarith
  then show ?thesis
  proof cases
    case 1 then show ?thesis using Cons assms(1)
      by (simp add: Upvote_runTx_def sqlHasVote_ledger)
  next
    case 2 then show ?thesis using Cons assms(1) insert_vote_ok[OF l h, of 1 now]
      by (simp add: Upvote_runTx_def sqlHasVote_ledger sqlUpvote_def v)
  next
    case 3 then show ?thesis using Cons assms(1) ins0
      by (simp add: Upvote_runTx_def sqlHasVote_ledger sqlUpvote_def)
  qed
qed


lemma Downvote_runTx_cases:
  assumes "sqlHasQuote d i \<noteq> 0" "length (ledger d i v) \<le> 1"
  shows "Downvote_runTx d {} now i v =
     (case ledger d i v of [] \<Rightarrow> Inr (False, voted d i v (- 1) now)
      | x # _ \<Rightarrow> if x < 0 then Inr (True, d) else if x > 0 then Inr (False, voted d i v (- 1) now)
                 else Inl (Errorf ''failed to exec downvote: %w'' ErrConstraint))"
proof (cases "ledger d i v")
  case Nil
  then have f: "filter (\<lambda>r. \<not> for_pair i v r) (votes d) = votes d"
    by (simp add: ledger_Nil filter_empty_conv filter_id_conv)
  show ?thesis using Nil assms(1) insert_vote_ok[OF Nil assms(1), of "- 1" now]
    by (simp add: Downvote_runTx_def sqlHasVote_ledger sqlDownvote_def voted_def f)
next
  case (Cons x xs)
  have l: "ledger (sqlUnvote d i v) i v = []" by simp
  have h: "sqlHasQuote (sqlUnvote d i v) i \<noteq> 0" using assms(1) by simp
  have ne: "list_ex (for_pair i v) (votes d)" using Cons by (auto simp: list_ex_filter ledger_def)
  have ins0: "insert_vote d \<lparr>quote_id = i, voter = v, vote = - 1, v_date = now\<rparr> = Inl ErrConstraint"
    using ne by (simp add: insert_vote_def)
  have v: "voted d i v (- 1) now = (sqlUnvote d i v)\<lparr>votes := votes (sqlUnvote d i v) @ [\<lparr>quote_id = i, voter = v, vote = - 1, v_date = now\<rparr>]\<rparr>"
    by (simp add: voted_def sqlUnvote_def)
  consider "x > 0" | "x < 0" | "x = 0" by linarith
  then show ?thesis
  proof cases
    case 1 then show ?thesis using Cons assms(1) insert_vote_ok[OF l h, of "- 1" now]
      by (simp add: Downvote_runTx_def sqlHasVote_ledger sqlDownvote_def v)
  next
    case 2 then show ?thesis using Cons assms(1)
      by (simp add: Downvote_runTx_def sqlHasVote_ledger)
  next
    case 3 then show ?thesis using Cons assms(1) ins0
      by (simp add: Downvote_runTx_def sqlHasVote_ledger sqlDownvote_def)
  qed
qed

lemma Unvote_runTx_cases:
  assumes "sqlHasQuote d i \<noteq> 0"
  shows "Unvote_runTx d {} i v =
     (case ledger d i v of [] \<Rightarrow> Inr (False, d) | x # _ \<Rightarrow> Inr (True, sqlUnvote d i v))"
  using assms by (simp add: Unvote_runTx_def sqlHasVote_ledger split: list.splits)

lemma ledger_voted [simp]: "ledger (voted d i v x now) i v = [x]"
  by (simp add: ledger_def voted_def for_pair_def)

lemma quotes_voted [simp]: "quotes (voted d i v x now) = quotes d"
  by (simp add: voted_def)

lemma others_voted [simp]:
  "filter (\<lambda>r. \<not> for_pair i v r) (votes (voted d i v x now)) = filter (\<lambda>r. \<not> for_pair i v r) (votes d)"
  by (simp add: voted_def for_pair_def)

lemma dates_voted [simp]: "map v_date (filter (for_pair i v) (votes (voted d i v x now))) = [now]"
  by (simp add: voted_def for_pair_def)

lemma vote_state_Some: "vote_state d i v = Some st \<longleftrightarrow> ledger d i v = state_ledger st"
  by (cases st) (auto simp: vote_state_def state_ledger_def)

lemma transition_step:
  assumes "db q = Some d" and "sqlHasQuote d i \<noteq> 0" and "vote_state d i v = Some st"
  shows "\<exists>d'. vote_call opn q {} now i v =
                 Return ((snd (spec_transition opn st), None), q\<lparr>db := Some d'\<rparr>) \<and>
              vote_state d' i v = Some (fst (spec_transition opn st)) \<and>
              (\<not> snd (spec_transition opn st) \<longrightarrow> d' = d) \<and>
              (snd (spec_transition opn st) \<and> opn \<noteq> OpUnvote \<longrightarrow>
                 map v_date (filter (for_pair i v) (votes d')) = [now]) \<and>
              quotes d' = quotes d \<and>
              filter (\<lambda>r. \<not> for_pair i v r) (votes d') = filter (\<lambda>r. \<not> for_pair i v r) (votes d)"
proof -
  have l: "ledger d i v = state_ledger st" using assms(3) by (simp add: vote_state_Some)
  then have len: "length (ledger d i v) \<le> 1" by (cases st) (simp_all add: state_ledger_def)
  show ?thesis
  proof (cases opn)
    case OpUpvote
    then show ?thesis using assms(1) l Upvote_runTx_cases[OF assms(2) len, of now]
      by (cases st) (fastforce simp: Upvote_def state_ledger_def vote_state_Some)+
  next
    case OpDownvote
    then show ?thesis using assms(1) l Downvote_runTx_cases[OF assms(2) len, of now]
      by (cases st) (fastforce simp: Downvote_def state_ledger_def vote_state_Some)+
  next
    case OpUnvote
    then show ?thesis using assms(1) l Unvote_runTx_cases[OF assms(2), of v]
      by (cases st) (fastforce simp: Unvote_def state_ledger_def vote_state_Some)+
  qed
qed


lemma insert_vote_Inr:
  "insert_vote d \<lparr>quote_id = i, voter = v, vote = x, v_date = now\<rparr> = Inr d' \<Longrightarrow> d' = voted d i v x now"
proof -
  assume a: "insert_vote d \<lparr>quote_id = i, voter = v, vote = x, v_date = now\<rparr> = Inr d'"
  then have ne: "\<not> list_ex (for_pair i v) (votes d)"
    by (simp add: insert_vote_def split: if_splits)
  then have f: "filter (\<lambda>r. \<not> for_pair i v r) (votes d) = votes d"
    by (simp add: list_ex_filter filter_empty_conv filter_id_conv)
  show ?thesis using a ne by (auto simp: insert_vote_def voted_def f split: if_splits)
qed

lemma voted_sqlUnvote [simp]: "voted (sqlUnvote d i v) i v x now = voted d i v x now"
  by (simp add: voted_def sqlUnvote_def)

lemma Upvote_runTx_Inr:
  "Upvote_runTx d flt now i v = Inr (a, tx) \<Longrightarrow> (a \<and> tx = d) \<or> (\<not> a \<and> tx = voted d i v 1 now)"
  by (auto simp: Upvote_runTx_def Let_def sqlUpvote_def
           split: if_splits sum.splits dest!: insert_vote_Inr)

lemma Downvote_runTx_Inr:
  "Downvote_runTx d flt now i v = Inr (a, tx) \<Longrightarrow> (a \<and> tx = d) \<or> (\<not> a \<and> tx = voted d i v (- 1) now)"
  by (auto simp: Downvote_runTx_def Let_def sqlDownvote_def
           split: if_splits sum.splits dest!: insert_vote_Inr)

lemma Unvote_runTx_Inr:
  "Unvote_runTx d flt i v = Inr (a, tx) \<Longrightarrow> (\<not> a \<and> tx = d) \<or> (a \<and> tx = sqlUnvote d i v)"
  by (auto simp: Unvote_runTx_def split: if_splits option.splits)

lemma upd_same: "db q = Some d \<Longrightarrow> q\<lparr>db := Some d\<rparr> = q"
  by simp

lemma vote_call_step:
  assumes "db q = Some d"
  shows "\<exists>r d'. vote_call opn q flt now i v = Return (r, q\<lparr>db := Some d'\<rparr>) \<and>
                 (d' = d \<or> ledger d' i v = op_ledger opn)"
proof (cases opn)
  case OpUpvote
  show ?thesis
  proof (cases "Upvote_runTx d flt now i v")
    case (Inl e)
    then show ?thesis using assms OpUpvote
      by (auto simp: Upvote_def intro!: exI[of _ d])
  next
    case (Inr p)
    obtain a tx where p: "p = (a, tx)" by (cases p)
    from Upvote_runTx_Inr[OF Inr[unfolded p]] show ?thesis using assms OpUpvote Inr p
      by (auto simp: Upvote_def intro: exI[of _ d])
  qed
next
  case OpDownvote
  show ?thesis
  proof (cases "Downvote_runTx d flt now i v")
    case (Inl e)
    then show ?thesis using assms OpDownvote
      by (auto simp: Downvote_def intro!: exI[of _ d])
  next
    case (Inr p)
    obtain a tx where p: "p = (a, tx)" by (cases p)
    from Downvote_runTx_Inr[OF Inr[unfolded p]] show ?thesis using assms OpDownvote Inr p
      by (auto simp: Downvote_def intro: exI[of _ d])
  qed
next
  case OpUnvote
  show ?thesis
  proof (cases "Unvote_runTx d flt i v")
    case (Inl e)
    then show ?thesis using assms OpUnvote
      by (auto simp: Unvote_def intro!: exI[of _ d])
  next
    case (Inr p)
    obtain a tx where p: "p = (a, tx)" by (cases p)
    from Unvote_runTx_Inr[OF Inr[unfolded p]] show ?thesis using assms OpUnvote Inr p
      by (auto simp: Unvote_def intro: exI[of _ d])
  qed
qed

lemma Upvote_twice:
  assumes "db q = Some d" and "sqlHasQuote d i \<noteq> 0"
    and "ledger d i v = [] \<or> ledger d i v = [- 1]"
  shows "Upvote q {} now i v = Return ((True, None), q\<lparr>db := Some (voted d i v 1 now)\<rparr>) \<and>
         Upvote (q\<lparr>db := Some (voted d i v 1 now)\<rparr>) {} now2 i v =
           Return ((False, None), q\<lparr>db := Some (voted d i v 1 now)\<rparr>)"
proof -
  let ?d1 = "voted d i v 1 now"
  have len: "length (ledger d i v) \<le> 1" using assms(3) by auto
  have r1: "Upvote_runTx d {} now i v = Inr (False, ?d1)"
    using Upvote_runTx_cases[OF assms(2) len, of now] assms(3) by auto
  have h1: "sqlHasQuote ?d1 i \<noteq> 0" using assms(2) by (simp add: sqlHasQuote_def)
  have len1: "length (ledger ?d1 i v) \<le> 1" by simp
  have r2: "Upvote_runTx ?d1 {} now2 i v = Inr (True, ?d1)"
    using Upvote_runTx_cases[OF h1 len1, of now2] by simp
  show ?thesis using assms(1) r1 r2 by (simp add: Upvote_def)
qed

section \<open>The vote state machine\<close>

text \<open>
  C1. On an open engine, for a quote id that exists and a pair in one of the three states,
  each of Upvote, Downvote and Unvote, when no call fails, returns without error the
  boolean of the specification's table and leaves the pair in the table's target state;
  a call that the table marks as a no-op leaves the database as it was; a vote that is
  applied leaves the pair's single row dated by this call (the old row is deleted and a
  new one inserted); the quotes and the rows of every other pair are untouched. In
  particular an Upvote from none or down returns true, and a second Upvote returns false
  and changes nothing.
\<close>

theorem vote_transition_table:
  assumes "db q = Some d" and "sqlHasQuote d i \<noteq> 0" and "vote_state d i v = Some st"
  shows "(\<exists>d'. vote_call opn q {} now i v =
                 Return ((snd (spec_transition opn st), None), q\<lparr>db := Some d'\<rparr>) \<and>
              vote_state d' i v = Some (fst (spec_transition opn st)) \<and>
              (\<not> snd (spec_transition opn st) \<longrightarrow> d' = d) \<and>
              (snd (spec_transition opn st) \<and> opn \<noteq> OpUnvote \<longrightarrow>
                 map v_date (filter (for_pair i v) (votes d')) = [now]) \<and>
              quotes d' = quotes d \<and>
              filter (\<lambda>r. \<not> for_pair i v r) (votes d') = filter (\<lambda>r. \<not> for_pair i v r) (votes d)) \<and>
         (st \<noteq> StUp \<longrightarrow>
            (\<exists>q1. Upvote q {} now i v = Return ((True, None), q1) \<and>
                  Upvote q1 {} now2 i v = Return ((False, None), q1)))"
proof (rule conjI)
  show "\<exists>d'. vote_call opn q {} now i v =
                 Return ((snd (spec_transition opn st), None), q\<lparr>db := Some d'\<rparr>) \<and>
              vote_state d' i v = Some (fst (spec_transition opn st)) \<and>
              (\<not> snd (spec_transition opn st) \<longrightarrow> d' = d) \<and>
              (snd (spec_transition opn st) \<and> opn \<noteq> OpUnvote \<longrightarrow>
                 map v_date (filter (for_pair i v) (votes d')) = [now]) \<and>
              quotes d' = quotes d \<and>
              filter (\<lambda>r. \<not> for_pair i v r) (votes d') = filter (\<lambda>r. \<not> for_pair i v r) (votes d)"
    by (rule transition_step[OF assms])
next
  show "st \<noteq> StUp \<longrightarrow>
            (\<exists>q1. Upvote q {} now i v = Return ((True, None), q1) \<and>
                  Upvote q1 {} now2 i v = Return ((False, None), q1))"
  proof (rule impI)
    assume "st \<noteq> StUp"
    then have "ledger d i v = [] \<or> ledger d i v = [- 1]"
      using assms(3) by (cases st) (simp_all add: vote_state_Some state_ledger_def)
    from Upvote_twice[OF assms(1) assms(2) this, of now now2]
    show "\<exists>q1. Upvote q {} now i v = Return ((True, None), q1) \<and>
                  Upvote q1 {} now2 i v = Return ((False, None), q1)"
      by (rule exI)
  qed
qed

theorem vote_transition_table_witness:
  "db (engine store_voted) = Some store_voted \<and> sqlHasQuote store_voted 1 \<noteq> 0 \<and>
   vote_state store_voted 1 ''x'' = Some StDown \<and>
   ((\<exists>d'. vote_call OpUpvote (engine store_voted) {} 7 1 ''x'' =
                 Return ((snd (spec_transition OpUpvote StDown), None), (engine store_voted)\<lparr>db := Some d'\<rparr>) \<and>
              vote_state d' 1 ''x'' = Some (fst (spec_transition OpUpvote StDown)) \<and>
              (\<not> snd (spec_transition OpUpvote StDown) \<longrightarrow> d' = store_voted) \<and>
              (snd (spec_transition OpUpvote StDown) \<and> OpUpvote \<noteq> OpUnvote \<longrightarrow>
                 map v_date (filter (for_pair 1 ''x'') (votes d')) = [7]) \<and>
              quotes d' = quotes store_voted \<and>
              filter (\<lambda>r. \<not> for_pair 1 ''x'' r) (votes d') =
                filter (\<lambda>r. \<not> for_pair 1 ''x'' r) (votes store_voted)) \<and>
    (\<exists>q1. Upvote (engine store_voted) {} 7 1 ''x'' = Return ((True, None), q1) \<and>
          Upvote q1 {} 8 1 ''x'' = Return ((False, None), q1)))"
proof -
  have h1: "db (engine store_voted) = Some store_voted" by (simp add: engine_def)
  have h2: "sqlHasQuote store_voted 1 \<noteq> 0" by (simp add: sqlHasQuote_def store_voted_def)
  have h3: "vote_state store_voted 1 ''x'' = Some StDown"
    by (simp add: vote_state_def ledger_def store_voted_def for_pair_def)
  note T = vote_transition_table[OF h1 h2 h3, of OpUpvote 7 8]
  have twice: "\<exists>q1. Upvote (engine store_voted) {} 7 1 ''x'' = Return ((True, None), q1) \<and>
                    Upvote q1 {} 8 1 ''x'' = Return ((False, None), q1)"
    using T[THEN conjunct2] by simp
  show ?thesis
    by (rule conjI[OF h1 conjI[OF h2 conjI[OF h3 conjI[OF T[THEN conjunct1] twice]]]])
qed

section \<open>One row per voter and quote\<close>

lemma run_calls_any_faults:
  assumes "db q = Some d" and "length (ledger d i v) \<le> 1"
  shows "\<exists>d'. db (run_calls cs i v q) = Some d' \<and> length (ledger d' i v) \<le> 1 \<and>
              (case last_change cs i v q of
                 None \<Rightarrow> run_calls cs i v q = q
               | Some opn \<Rightarrow> ledger d' i v = op_ledger opn)"
  using assms
proof (induction cs arbitrary: q d)
  case Nil
  then show ?case by simp
next
  case (Cons c cs)
  obtain opn flt now where c: "c = (opn, flt, now)" by (cases c)
  from vote_call_step[OF Cons.prems(1), of opn flt now i v]
  obtain r d1 where r: "vote_call opn q flt now i v = Return (r, q\<lparr>db := Some d1\<rparr>)"
    and d1: "d1 = d \<or> ledger d1 i v = op_ledger opn" by blast
  let ?q1 = "q\<lparr>db := Some d1\<rparr>"
  have db1: "db ?q1 = Some d1" by simp
  have len1: "length (ledger d1 i v) \<le> 1"
    using d1 Cons.prems(2) by (cases opn) auto
  from Cons.IH[OF db1 len1]
  obtain d' where d': "db (run_calls cs i v ?q1) = Some d'" "length (ledger d' i v) \<le> 1"
    "(case last_change cs i v ?q1 of None \<Rightarrow> run_calls cs i v ?q1 = ?q1
      | Some opn \<Rightarrow> ledger d' i v = op_ledger opn)" by blast
  have same: "?q1 = q \<longleftrightarrow> d1 = d" using Cons.prems(1)
    by (metis db1 option.inject upd_same)
  show ?case
  proof (cases "last_change cs i v ?q1")
    case (Some later)
    then show ?thesis using d' r c by simp
  next
    case None
    then have fin: "run_calls cs i v ?q1 = ?q1" using d'(3) by simp
    then have dd: "d' = d1" using d'(1) by simp
    show ?thesis
    proof (cases "d1 = d")
      case True
      then show ?thesis using None r c fin dd d'(2) same Cons.prems(1) by simp
    next
      case False
      then have "ledger d1 i v = op_ledger opn" using d1 by simp
      then show ?thesis using None r c fin dd d'(2) same False by simp
    qed
  qed
qed

lemma applied_changes: "snd (spec_transition opn st) \<Longrightarrow> fst (spec_transition opn st) \<noteq> st"
  by (cases opn; cases st) simp_all

lemma spec_run_last:
  "spec_run ops st = (case spec_last_applied ops st of None \<Rightarrow> st | Some opn \<Rightarrow> op_state opn)"
proof (induction ops arbitrary: st)
  case Nil
  then show ?case by simp
next
  case (Cons opn ops)
  have t: "fst (spec_transition opn st) = (if snd (spec_transition opn st) then op_state opn else st)"
    by (cases opn; cases st) simp_all
  show ?case using Cons[of "fst (spec_transition opn st)"] t
    by (simp split: option.splits)
qed

lemma run_calls_table:
  assumes "db q = Some d" and "sqlHasQuote d i \<noteq> 0" and "vote_state d i v = Some st"
    and "list_all (\<lambda>c. fst (snd c) = {}) cs"
  shows "\<exists>d'. db (run_calls cs i v q) = Some d' \<and>
              vote_state d' i v = Some (spec_run (map fst cs) st) \<and>
              last_change cs i v q = spec_last_applied (map fst cs) st"
  using assms
proof (induction cs arbitrary: q d st)
  case Nil
  then show ?case by simp
next
  case (Cons c cs)
  obtain opn flt now where c: "c = (opn, flt, now)" by (cases c)
  have flt: "flt = {}" using Cons.prems(4) c by simp
  have rest: "list_all (\<lambda>c. fst (snd c) = {}) cs" using Cons.prems(4) by simp
  let ?tr = "spec_transition opn st"
  from transition_step[OF Cons.prems(1,2,3), of opn now]
  obtain d1 where r: "vote_call opn q {} now i v = Return ((snd ?tr, None), q\<lparr>db := Some d1\<rparr>)"
    and s1: "vote_state d1 i v = Some (fst ?tr)"
    and same: "\<not> snd ?tr \<longrightarrow> d1 = d"
    and q1: "quotes d1 = quotes d" by blast
  let ?q1 = "q\<lparr>db := Some d1\<rparr>"
  have db1: "db ?q1 = Some d1" by simp
  have h1: "sqlHasQuote d1 i \<noteq> 0" using Cons.prems(2) q1 by (simp add: sqlHasQuote_def)
  from Cons.IH[OF db1 h1 s1 rest]
  obtain d' where d': "db (run_calls cs i v ?q1) = Some d'"
    "vote_state d' i v = Some (spec_run (map fst cs) (fst ?tr))"
    "last_change cs i v ?q1 = spec_last_applied (map fst cs) (fst ?tr)" by blast
  have changed: "?q1 = q \<longleftrightarrow> \<not> snd ?tr"
  proof
    assume "?q1 = q"
    then have "d1 = d" using Cons.prems(1) by (metis db1 option.inject)
    then have "fst ?tr = st" using s1 Cons.prems(3) by simp
    then show "\<not> snd ?tr" using applied_changes[of opn st] by auto
  next
    assume "\<not> snd ?tr"
    then have "d1 = d" using same by simp
    then show "?q1 = q" using Cons.prems(1) by simp
  qed
  show ?case using d' r c flt changed
    by (auto split: option.splits)
qed

text \<open>
  C2. On an open engine whose table holds at most one row for the pair (the primary key of
  the votes table), after any sequence of Upvote, Downvote and Unvote calls by the voter on
  the quote, whatever calls fail, the table still holds at most one row for the pair; if
  some call of the sequence changed the engine, the pair's ledger is the one of the last
  such call (\<open>[1]\<close> after an Upvote, \<open>[-1]\<close> after a Downvote, no row after an Unvote),
  and otherwise the engine is as it was. When the quote exists, the pair starts in one of
  the three states and no call fails, the calls that change the engine are exactly the
  ones the specification's table marks as applied: the pair ends in the state the table
  leads to, which is the direction of the last applied operation of the sequence (the
  start state if none was applied).
\<close>

theorem one_row_per_pair:
  assumes "db q = Some d" and "length (ledger d i v) \<le> 1"
  shows "(\<exists>d'. db (run_calls cs i v q) = Some d' \<and> length (ledger d' i v) \<le> 1 \<and>
              (case last_change cs i v q of
                 None \<Rightarrow> run_calls cs i v q = q
               | Some opn \<Rightarrow> ledger d' i v = op_ledger opn)) \<and>
         (sqlHasQuote d i \<noteq> 0 \<and> vote_state d i v = Some st \<and>
          list_all (\<lambda>c. fst (snd c) = {}) cs \<longrightarrow>
            (\<exists>d'. db (run_calls cs i v q) = Some d' \<and>
                  vote_state d' i v = Some (spec_run (map fst cs) st) \<and>
                  last_change cs i v q = spec_last_applied (map fst cs) st \<and>
                  spec_run (map fst cs) st =
                    (case spec_last_applied (map fst cs) st of
                       None \<Rightarrow> st
                     | Some opn \<Rightarrow> op_state opn)))"
proof (rule conjI)
  show "\<exists>d'. db (run_calls cs i v q) = Some d' \<and> length (ledger d' i v) \<le> 1 \<and>
              (case last_change cs i v q of
                 None \<Rightarrow> run_calls cs i v q = q
               | Some opn \<Rightarrow> ledger d' i v = op_ledger opn)"
    by (rule run_calls_any_faults[OF assms])
next
  show "sqlHasQuote d i \<noteq> 0 \<and> vote_state d i v = Some st \<and>
          list_all (\<lambda>c. fst (snd c) = {}) cs \<longrightarrow>
            (\<exists>d'. db (run_calls cs i v q) = Some d' \<and>
                  vote_state d' i v = Some (spec_run (map fst cs) st) \<and>
                  last_change cs i v q = spec_last_applied (map fst cs) st \<and>
                  spec_run (map fst cs) st =
                    (case spec_last_applied (map fst cs) st of
                       None \<Rightarrow> st
                     | Some opn \<Rightarrow> op_state opn))"
  proof (intro impI, elim conjE)
    assume h: "sqlHasQuote d i \<noteq> 0" "vote_state d i v = Some st"
      "list_all (\<lambda>c. fst (snd c) = {}) cs"
    from run_calls_table[OF assms(1) h]
    obtain d' where "db (run_calls cs i v q) = Some d'"
      "vote_state d' i v = Some (spec_run (map fst cs) st)"
      "last_change cs i v q = spec_last_applied (map fst cs) st" by blast
    then show "\<exists>d'. db (run_calls cs i v q) = Some d' \<and>
                  vote_state d' i v = Some (spec_run (map fst cs) st) \<and>
                  last_change cs i v q = spec_last_applied (map fst cs) st \<and>
                  spec_run (map fst cs) st =
                    (case spec_last_applied (map fst cs) st of
                       None \<Rightarrow> st
                     | Some opn \<Rightarrow> op_state opn)"
      using spec_run_last[of "map fst cs" st] by blast
  qed
qed

theorem one_row_per_pair_witness:
  "db (engine store_one) = Some store_one \<and> length (ledger store_one 1 ''x'') \<le> 1 \<and>
   sqlHasQuote store_one 1 \<noteq> 0 \<and> vote_state store_one 1 ''x'' = Some StNone \<and>
   list_all (\<lambda>c. fst (snd c) = {})
     ([(OpDownvote, {}, 5), (OpUpvote, {}, 6), (OpUpvote, {}, 7)] :: vote_calls) \<and>
   spec_run [OpDownvote, OpUpvote, OpUpvote] StNone = StUp \<and>
   spec_last_applied [OpDownvote, OpUpvote, OpUpvote] StNone = Some OpUpvote \<and>
   (\<exists>d'. db (run_calls [(OpDownvote, {}, 5), (OpUpvote, {}, 6), (OpUpvote, {}, 7)]
                1 ''x'' (engine store_one)) = Some d' \<and>
          length (ledger d' 1 ''x'') \<le> 1 \<and>
          (case last_change [(OpDownvote, {}, 5), (OpUpvote, {}, 6), (OpUpvote, {}, 7)]
                  1 ''x'' (engine store_one) of
             None \<Rightarrow> run_calls [(OpDownvote, {}, 5), (OpUpvote, {}, 6), (OpUpvote, {}, 7)]
                        1 ''x'' (engine store_one) = engine store_one
           | Some opn \<Rightarrow> ledger d' 1 ''x'' = op_ledger opn)) \<and>
   (\<exists>d'. db (run_calls [(OpDownvote, {}, 5), (OpUpvote, {}, 6), (OpUpvote, {}, 7)]
                1 ''x'' (engine store_one)) = Some d' \<and>
          vote_state d' 1 ''x'' = Some StUp \<and>
          last_change [(OpDownvote, {}, 5), (OpUpvote, {}, 6), (OpUpvote, {}, 7)]
             1 ''x'' (engine store_one) = Some OpUpvote)"
proof -
  let ?cs = "[(OpDownvote, {}, 5), (OpUpvote, {}, 6), (OpUpvote, {}, 7)] :: vote_calls"
  have h1: "db (engine store_one) = Some store_one" by (simp add: engine_def)
  have h2: "length (ledger store_one 1 ''x'') \<le> 1" by (simp add: ledger_def store_one_def)
  have h3: "sqlHasQuote store_one 1 \<noteq> 0" by (simp add: sqlHasQuote_def store_one_def)
  have h4: "vote_state store_one 1 ''x'' = Some StNone"
    by (simp add: vote_state_def ledger_def store_one_def)
  have h5: "list_all (\<lambda>c. fst (snd c) = {}) ?cs" by simp
  have sr: "spec_run [OpDownvote, OpUpvote, OpUpvote] StNone = StUp" by simp
  have sl: "spec_last_applied [OpDownvote, OpUpvote, OpUpvote] StNone = Some OpUpvote" by simp
  note T = one_row_per_pair[OF h1 h2, of ?cs StNone]
  have A: "\<exists>d'. db (run_calls ?cs 1 ''x'' (engine store_one)) = Some d' \<and>
          length (ledger d' 1 ''x'') \<le> 1 \<and>
          (case last_change ?cs 1 ''x'' (engine store_one) of
             None \<Rightarrow> run_calls ?cs 1 ''x'' (engine store_one) = engine store_one
           | Some opn \<Rightarrow> ledger d' 1 ''x'' = op_ledger opn)"
    by (rule T[THEN conjunct1])
  have "\<exists>d'. db (run_calls ?cs 1 ''x'' (engine store_one)) = Some d' \<and>
          vote_state d' 1 ''x'' = Some (spec_run (map fst ?cs) StNone) \<and>
          last_change ?cs 1 ''x'' (engine store_one) = spec_last_applied (map fst ?cs) StNone \<and>
          spec_run (map fst ?cs) StNone =
            (case spec_last_applied (map fst ?cs) StNone of None \<Rightarrow> StNone | Some opn \<Rightarrow> op_state opn)"
    by (rule T[THEN conjunct2, rule_format, OF conjI[OF h3 conjI[OF h4 h5]]])
  then obtain d' where
    b1: "db (run_calls ?cs 1 ''x'' (engine store_one)) = Some d'"
    and b2: "vote_state d' 1 ''x'' = Some (spec_run (map fst ?cs) StNone)"
    and b3: "last_change ?cs 1 ''x'' (engine store_one) = spec_last_applied (map fst ?cs) StNone"
    by (elim exE conjE)
  have b2': "vote_state d' 1 ''x'' = Some StUp" using b2 by simp
  have b3': "last_change ?cs 1 ''x'' (engine store_one) = Some OpUpvote" using b3 by simp
  have B: "\<exists>d'. db (run_calls ?cs 1 ''x'' (engine store_one)) = Some d' \<and>
          vote_state d' 1 ''x'' = Some StUp \<and>
          last_change ?cs 1 ''x'' (engine store_one) = Some OpUpvote"
    using b1 b2' b3' by (intro exI conjI)
  show ?thesis
    by (rule conjI[OF h1 conjI[OF h2 conjI[OF h3 conjI[OF h4 conjI[OF h5 conjI[OF sr
          conjI[OF sl conjI[OF A B]]]]]]]])
qed

section \<open>Vote counts\<close>

lemma Votes_counts:
  assumes "db q = Some d" and "GetUpvotes \<notin> flt" and "GetDownvotes \<notin> flt"
  shows "Votes q flt i =
           Return (int (length (filter (\<lambda>r. quote_id r = i \<and> vote r = 1) (votes d))),
                   int (length (filter (\<lambda>r. quote_id r = i \<and> vote r = - 1) (votes d))), None)"
  using assms by (simp add: Votes_def sqlGetUpvotes_def sqlGetDownvotes_def)

text \<open>
  C4. \<^verbatim>\<open>Votes\<close> of quotes.go runs \<^verbatim>\<open>sqlGetUpvotes\<close> for both results: on a database with one
  up row and no down row for quote 1 it returns (1, 1), while the number of down rows is 0.
  (\<open>Votes_counts\<close> above shows that \<^verbatim>\<open>Votes\<close> of unnamed/part_001 returns the two counts.)
\<close>

theorem Votes_quotes_go_down_is_up_count:
  "Votes_quotes_go (engine store_upvoted) {} 1 = Return (1, 1, None) \<and>
   sqlGetDownvotes store_upvoted 1 = 0 \<and>
   Votes (engine store_upvoted) {} 1 = Return (1, 0, None)"
  by (simp add: Votes_quotes_go_def Votes_def engine_def store_upvoted_def
        sqlGetUpvotes_def sqlGetDownvotes_def)

section \<open>Deleting a quote\<close>

lemma count_by_id:
  "distinct (map f xs) \<Longrightarrow> length (filter (\<lambda>r. f r = i) xs) = (if list_ex (\<lambda>r. f r = i) xs then 1 else 0)"
proof (induction xs)
  case Nil
  then show ?case by simp
next
  case (Cons x xs)
  then have "f x = i \<Longrightarrow> filter (\<lambda>r. f r = i) xs = []"
    by (auto simp: filter_empty_conv image_iff)
  with Cons show ?case by (auto simp: list_ex_iff)
qed

lemma sqlDel_after_sqlDelVotes:
  "sqlDel (sqlDelVotes d i) i =
     Inr (int (length (filter (\<lambda>r. q_id r = i) (quotes d))), cascaded d i)"
  by (simp add: sqlDel_def sqlDelVotes_def cascaded_def list_ex_iff)

lemma DelQuote_runTx_ok:
  assumes "ExecDelVotes \<notin> flt" and "ExecDel \<notin> flt" and "RowsAffected \<notin> flt"
  shows "DelQuote_runTx d flt i =
           Inr (int (length (filter (\<lambda>r. q_id r = i) (quotes d))), cascaded d i)"
  using assms by (simp add: DelQuote_runTx_def sqlDel_after_sqlDelVotes)

lemma DelQuote_runTx_Inr:
  "DelQuote_runTx d flt i = Inr (n, tx) \<Longrightarrow>
     n = int (length (filter (\<lambda>r. q_id r = i) (quotes d))) \<and> tx = cascaded d i"
  by (auto simp: DelQuote_runTx_def sqlDel_after_sqlDelVotes split: if_splits)

text \<open>
  \<^verbatim>\<open>DelQuote\<close> of unnamed/part_001 does what C3 says: without a failing call the votes on
  the id and the quote row are gone after the commit, the result is true exactly when the
  quote existed, and the count drops by one exactly then; with a failing call the result
  is false with an error and the engine is as before.
\<close>

lemma DelQuote_cascade:
  assumes "db q = Some d" and "pk_ok d"
  shows "flt \<inter> DelQuote_sites = {} \<longrightarrow>
           DelQuote q flt i =
             (if sqlHasQuote d i = 1
              then Return ((True, None), q\<lparr>db := Some (cascaded d i), nQuotes := nQuotes q - 1\<rparr>)
              else Return ((False, None), q\<lparr>db := Some (cascaded d i)\<rparr>))"
    and "flt \<inter> DelQuote_sites \<noteq> {} \<longrightarrow> (\<exists>e. DelQuote q flt i = Return ((False, Some e), q))"
proof -
  have n: "int (length (filter (\<lambda>r. q_id r = i) (quotes d))) = sqlHasQuote d i"
    using assms(2) count_by_id[of q_id "quotes d" i] by (simp add: pk_ok_def sqlHasQuote_def)
  show "flt \<inter> DelQuote_sites = {} \<longrightarrow>
           DelQuote q flt i =
             (if sqlHasQuote d i = 1
              then Return ((True, None), q\<lparr>db := Some (cascaded d i), nQuotes := nQuotes q - 1\<rparr>)
              else Return ((False, None), q\<lparr>db := Some (cascaded d i)\<rparr>))"
  proof
    assume "flt \<inter> DelQuote_sites = {}"
    then have f: "BeginTx \<notin> flt" "ExecDelVotes \<notin> flt" "ExecDel \<notin> flt" "RowsAffected \<notin> flt"
      "Commit \<notin> flt" by (auto simp: DelQuote_sites_def)
    show "DelQuote q flt i =
             (if sqlHasQuote d i = 1
              then Return ((True, None), q\<lparr>db := Some (cascaded d i), nQuotes := nQuotes q - 1\<rparr>)
              else Return ((False, None), q\<lparr>db := Some (cascaded d i)\<rparr>))"
      using assms(1) f DelQuote_runTx_ok[OF f(2,3,4), of d i] n
      by (simp add: DelQuote_def)
  qed
  show "flt \<inter> DelQuote_sites \<noteq> {} \<longrightarrow> (\<exists>e. DelQuote q flt i = Return ((False, Some e), q))"
  proof
    assume "flt \<inter> DelQuote_sites \<noteq> {}"
    then consider "BeginTx \<in> flt" | "ExecDelVotes \<in> flt" | "ExecDel \<in> flt"
      | "RowsAffected \<in> flt" | "Commit \<in> flt"
      by (auto simp: DelQuote_sites_def)
    then show "\<exists>e. DelQuote q flt i = Return ((False, Some e), q)"
    proof cases
      case 1 then show ?thesis using assms(1) by (simp add: DelQuote_def)
    next
      case 2 then show ?thesis using assms(1) by (simp add: DelQuote_def DelQuote_runTx_def)
    next
      case 3 then show ?thesis using assms(1) by (simp add: DelQuote_def DelQuote_runTx_def)
    next
      case 4 then show ?thesis using assms(1)
        by (simp add: DelQuote_def DelQuote_runTx_def sqlDel_after_sqlDelVotes)
    next
      case 5 then show ?thesis using assms(1)
        by (cases "DelQuote_runTx d flt i") (auto simp: DelQuote_def)
    qed
  qed
qed

text \<open>
  C3. \<^verbatim>\<open>DelQuote\<close> of quotes.go (lines 246-263) deletes no vote row: on a database where
  quote 1 has a vote, its single \<^verbatim>\<open>DELETE FROM quotes\<close> is refused by the foreign key, it
  returns false with that error, and the quote and its vote are still there. \<^verbatim>\<open>DelQuote\<close>
  of unnamed/part_001 on the same input deletes both and returns true.
\<close>

theorem DelQuote_quotes_go_no_cascade:
  "DelQuote_quotes_go (engine store_voted) {} 1 =
     Return ((False, Some ErrConstraint), engine store_voted) \<and>
   DelQuote (engine store_voted) {} 1 =
     Return ((True, None), (engine store_voted)\<lparr>db := Some \<lparr>quotes = [], votes = [], seq = 1\<rparr>,
                                                  nQuotes := 0\<rparr>)"
  by (simp add: DelQuote_quotes_go_def DelQuote_def DelQuote_runTx_def sqlDel_def sqlDelVotes_def
        engine_def store_voted_def)

section \<open>The cached count\<close>

lemma fold_max_ge: "a \<le> fold max xs (a::int)"
proof (induction xs arbitrary: a)
  case Nil
  then show ?case by simp
next
  case (Cons x xs)
  have "a \<le> max x a" by simp
  also have "\<dots> \<le> fold max xs (max x a)" by (rule Cons.IH)
  finally show ?case by simp
qed

lemma fold_max_mem: "x \<in> set xs \<Longrightarrow> x \<le> fold max xs (a::int)"
proof (induction xs arbitrary: a)
  case Nil
  then show ?case by simp
next
  case (Cons y ys)
  show ?case
  proof (cases "x = y")
    case True
    have "x \<le> max y a" using True by simp
    also have "\<dots> \<le> fold max ys (max y a)" by (rule fold_max_ge)
    finally show ?thesis by simp
  next
    case False
    then have "x \<in> set ys" using Cons.prems by simp
    then show ?thesis using Cons.IH by simp
  qed
qed

lemma largest_id_ge: "largest_id rows = Some m \<Longrightarrow> r \<in> set rows \<Longrightarrow> q_id r \<le> m"
proof (cases rows)
  case Nil
  then show "largest_id rows = Some m \<Longrightarrow> r \<in> set rows \<Longrightarrow> q_id r \<le> m" by simp
next
  case (Cons x xs)
  assume m: "largest_id rows = Some m" and r: "r \<in> set rows"
  have m': "m = fold max (map q_id xs) (q_id x)" using m Cons by (simp add: largest_id_def)
  show "q_id r \<le> m"
  proof (cases "r = x")
    case True
    then show ?thesis using m' fold_max_ge[of "q_id x" "map q_id xs"] by simp
  next
    case False
    then have "q_id r \<in> set (map q_id xs)" using r Cons by auto
    then show ?thesis using m' fold_max_mem by simp
  qed
qed

lemma largest_id_None: "largest_id rows = None \<longleftrightarrow> rows = []"
  by (simp add: largest_id_def split: list.splits)

lemma sqlAdd_pk:
  assumes "pk_ok d" and "sqlAdd d now author quote = Inr (i, d')"
  shows "pk_ok d'" and "sqlGetCount d' = sqlGetCount d + 1"
proof -
  let ?top = "case largest_id (quotes d) of None \<Rightarrow> seq d | Some m \<Rightarrow> max (seq d) m"
  have d': "d' = (with_quote d (?top + 1) now author quote)\<lparr>seq := ?top + 1\<rparr>"
    using assms(2) by (auto simp: sqlAdd_def Let_def split: if_splits)
  have "\<forall>r \<in> set (quotes d). q_id r \<noteq> ?top + 1"
  proof
    fix r assume r: "r \<in> set (quotes d)"
    then obtain m where m: "largest_id (quotes d) = Some m"
      using largest_id_None[of "quotes d"] by (cases "largest_id (quotes d)") auto
    then have "q_id r \<le> m" using r by (rule largest_id_ge)
    then show "q_id r \<noteq> ?top + 1" using m by simp
  qed
  then show "pk_ok d'"
    using assms(1) by (auto simp: pk_ok_def d' with_quote_def)
  show "sqlGetCount d' = sqlGetCount d + 1"
    by (simp add: d' with_quote_def sqlGetCount_def)
qed

lemma AddQuote_count_ok:
  assumes "count_ok q"
  shows "\<exists>r q'. AddQuote q flt now author quote = Return (r, q') \<and> count_ok q'"
proof -
  obtain d where d: "db q = Some d" "pk_ok d" "nQuotes q = sqlGetCount d"
    using assms by (auto simp: count_ok_def NQuotes_def split: option.splits)
  show ?thesis
  proof (cases "ExecAdd \<in> flt")
    case True
    then show ?thesis using d assms by (simp add: AddQuote_def)
  next
    case False
    show ?thesis
    proof (cases "sqlAdd d now author quote")
      case (Inl e)
      then show ?thesis using False d assms by (simp add: AddQuote_def)
    next
      case (Inr p)
      obtain i d' where p: "p = (i, d')" by (cases p)
      have "pk_ok d'" "sqlGetCount d' = sqlGetCount d + 1"
        using sqlAdd_pk[OF d(2) Inr[unfolded p]] by simp_all
      then show ?thesis using False d Inr p
        by (simp add: AddQuote_def count_ok_def NQuotes_def)
    qed
  qed
qed

lemma pk_ok_cascaded: "pk_ok d \<Longrightarrow> pk_ok (cascaded d i)"
  by (simp add: pk_ok_def cascaded_def distinct_map_filter)

lemma count_cascaded:
  assumes "pk_ok d"
  shows "sqlGetCount (cascaded d i) = sqlGetCount d - (if sqlHasQuote d i = 1 then 1 else 0)"
proof -
  have "length (quotes d) =
          length (filter (\<lambda>r. q_id r = i) (quotes d)) + length (filter (\<lambda>r. q_id r \<noteq> i) (quotes d))"
    using sum_length_filter_compl[of "\<lambda>r. q_id r = i" "quotes d"] by simp
  moreover have "int (length (filter (\<lambda>r. q_id r = i) (quotes d))) = sqlHasQuote d i"
    using assms count_by_id[of q_id "quotes d" i] by (simp add: pk_ok_def sqlHasQuote_def)
  ultimately show ?thesis
    by (simp add: sqlGetCount_def cascaded_def sqlHasQuote_def split: if_splits)
qed

lemma DelQuote_count_ok:
  assumes "count_ok q"
  shows "\<exists>r q'. DelQuote q flt i = Return (r, q') \<and> count_ok q'"
proof -
  obtain d where d: "db q = Some d" "pk_ok d" "nQuotes q = sqlGetCount d"
    using assms by (auto simp: count_ok_def NQuotes_def split: option.splits)
  show ?thesis
  proof (cases "flt \<inter> DelQuote_sites = {}")
    case True
    note del = DelQuote_cascade(1)[OF d(1,2), of flt i, rule_format, OF True]
    show ?thesis
    proof (cases "sqlHasQuote d i = 1")
      case True
      then have "DelQuote q flt i =
          Return ((True, None), q\<lparr>db := Some (cascaded d i), nQuotes := nQuotes q - 1\<rparr>)"
        using del by simp
      moreover have "count_ok (q\<lparr>db := Some (cascaded d i), nQuotes := nQuotes q - 1\<rparr>)"
        using True d(3) pk_ok_cascaded[OF d(2), of i] count_cascaded[OF d(2), of i]
        by (simp add: count_ok_def NQuotes_def)
      ultimately show ?thesis by blast
    next
      case False
      then have "DelQuote q flt i = Return ((False, None), q\<lparr>db := Some (cascaded d i)\<rparr>)"
        using del by simp
      moreover have "count_ok (q\<lparr>db := Some (cascaded d i)\<rparr>)"
        using False d(3) pk_ok_cascaded[OF d(2), of i] count_cascaded[OF d(2), of i]
        by (simp add: count_ok_def NQuotes_def)
      ultimately show ?thesis by blast
    qed
  next
    case False
    then show ?thesis using DelQuote_cascade(2)[OF d(1,2), of flt i] assms by auto
  qed
qed

text \<open>
  \<^verbatim>\<open>AddQuote\<close> and \<^verbatim>\<open>DelQuote\<close> of unnamed/part_001 keep the cached count equal to the number
  of rows, over any sequence of calls and whatever calls fail; \<^verbatim>\<open>OpenDB\<close> loads the count
  of the rows.
\<close>

lemma store_step_count_ok: "count_ok q \<Longrightarrow> count_ok (store_step c q)"
proof (cases c)
  case (CallAdd flt now author quote)
  assume "count_ok q"
  from AddQuote_count_ok[OF this, of flt now author quote] show ?thesis
    using CallAdd by auto
next
  case (CallDel flt i)
  assume "count_ok q"
  from DelQuote_count_ok[OF this, of flt i] show ?thesis
    using CallDel by auto
qed

lemma run_store_count_ok: "count_ok q \<Longrightarrow> count_ok (run_store cs q)"
  unfolding run_store_def
  by (induction cs arbitrary: q) (simp_all add: store_step_count_ok)

lemma OpenDB_count:
  "OpenDB bcrypt d flt webAuth = Inr q \<Longrightarrow> db q = Some d \<and> NQuotes q = sqlGetCount d"
  by (auto simp: OpenDB_def NQuotes_def Let_def split: if_splits prod.splits)

text \<open>
  C7. \<^verbatim>\<open>AddQuote\<close> of unnamed/part_000 (lines 85-92) increments the cached count although its
  insert failed: on a fresh engine with no row, after one call whose \<^verbatim>\<open>Exec\<close> fails, the
  count is 1 and the table still has no row. \<^verbatim>\<open>AddQuote\<close> of unnamed/part_001 on the same
  input leaves the count at 0.
\<close>

theorem AddQuote_part_000_counts_failed_insert:
  "NQuotes (engine store_empty) = sqlGetCount store_empty \<and>
   AddQuote_part_000 (engine store_empty) {ExecAdd} 5 ''Ada'' ''Q1'' 0 =
     Return (Some (ErrDriver ExecAdd), (engine store_empty)\<lparr>nQuotes := 1\<rparr>) \<and>
   db ((engine store_empty)\<lparr>nQuotes := 1\<rparr>) = Some store_empty \<and>
   sqlGetCount store_empty = 0 \<and>
   AddQuote (engine store_empty) {ExecAdd} 5 ''Ada'' ''Q1'' =
     Return ((0, Some (ErrDriver ExecAdd)), engine store_empty)"
  by (simp add: AddQuote_part_000_def AddQuote_def NQuotes_def engine_def store_empty_def
        sqlGetCount_def)

section \<open>Counting the votes of a missing quote\<close>

lemma fk_no_votes:
  assumes "fk_ok d" and "sqlHasQuote d i = 0"
  shows "filter (\<lambda>r. quote_id r = i \<and> P r) (votes d) = []"
proof -
  have "\<not> list_ex (\<lambda>q. q_id q = i) (quotes d)"
    using assms(2) by (simp add: sqlHasQuote_def split: if_splits)
  then have "\<forall>r \<in> set (votes d). quote_id r \<noteq> i"
    using assms(1) by (auto simp: fk_ok_def list_all_iff list_ex_iff)
  then show ?thesis by (simp add: filter_empty_conv)
qed

text \<open>
  The operations of unnamed/part_001 keep the foreign key: a vote is only inserted for an
  existing quote, and \<^verbatim>\<open>DelQuote\<close> removes the votes together with the quote.
\<close>

lemma fk_ok_sqlUnvote: "fk_ok d \<Longrightarrow> fk_ok (sqlUnvote d i v)"
  by (simp add: fk_ok_def sqlUnvote_def list_all_iff)

lemma fk_ok_voted: "fk_ok d \<Longrightarrow> sqlHasQuote d i \<noteq> 0 \<Longrightarrow> fk_ok (voted d i v x now)"
  by (simp add: fk_ok_def voted_def list_all_iff sqlHasQuote_def split: if_splits)

lemma fk_ok_cascaded: "fk_ok d \<Longrightarrow> fk_ok (cascaded d i)"
  by (fastforce simp: fk_ok_def cascaded_def list_all_iff list_ex_iff)

lemma fk_ok_sqlAdd: "fk_ok d \<Longrightarrow> sqlAdd d now author quote = Inr (i, d') \<Longrightarrow> fk_ok d'"
  by (auto simp: fk_ok_def sqlAdd_def with_quote_def Let_def list_all_iff list_ex_iff
           split: if_splits)

lemma runTx_has_quote:
  "Upvote_runTx d flt now i v = Inr p \<Longrightarrow> sqlHasQuote d i \<noteq> 0"
  "Downvote_runTx d flt now i v = Inr p \<Longrightarrow> sqlHasQuote d i \<noteq> 0"
  by (auto simp: Upvote_runTx_def Downvote_runTx_def split: if_splits)

lemma fk_ok_vote_call:
  assumes "db q = Some d" and "fk_ok d" and "vote_call opn q flt now i v = Return (r, q')"
  shows "\<exists>d'. db q' = Some d' \<and> fk_ok d'"
proof (cases opn)
  case OpUpvote
  show ?thesis
  proof (cases "Upvote_runTx d flt now i v")
    case (Inl e)
    then show ?thesis using assms OpUpvote by (auto simp: Upvote_def split: if_splits)
  next
    case (Inr p)
    obtain a tx where p: "p = (a, tx)" by (cases p)
    have "fk_ok tx"
      using Upvote_runTx_Inr[OF Inr[unfolded p]] runTx_has_quote(1)[OF Inr] assms(2)
      by (auto simp: fk_ok_voted)
    then show ?thesis using assms OpUpvote Inr p by (auto simp: Upvote_def split: if_splits)
  qed
next
  case OpDownvote
  show ?thesis
  proof (cases "Downvote_runTx d flt now i v")
    case (Inl e)
    then show ?thesis using assms OpDownvote by (auto simp: Downvote_def split: if_splits)
  next
    case (Inr p)
    obtain a tx where p: "p = (a, tx)" by (cases p)
    have "fk_ok tx"
      using Downvote_runTx_Inr[OF Inr[unfolded p]] runTx_has_quote(2)[OF Inr] assms(2)
      by (auto simp: fk_ok_voted)
    then show ?thesis using assms OpDownvote Inr p by (auto simp: Downvote_def split: if_splits)
  qed
next
  case OpUnvote
  show ?thesis
  proof (cases "Unvote_runTx d flt i v")
    case (Inl e)
    then show ?thesis using assms OpUnvote by (auto simp: Unvote_def split: if_splits)
  next
    case (Inr p)
    obtain a tx where p: "p = (a, tx)" by (cases p)
    have "fk_ok tx"
      using Unvote_runTx_Inr[OF Inr[unfolded p]] assms(2) by (auto simp: fk_ok_sqlUnvote)
    then show ?thesis using assms OpUnvote Inr p by (auto simp: Unvote_def split: if_splits)
  qed
qed

lemma fk_ok_AddQuote:
  assumes "db q = Some d" and "fk_ok d" and "AddQuote q flt now author quote = Return (r, q')"
  shows "\<exists>d'. db q' = Some d' \<and> fk_ok d'"
  using assms fk_ok_sqlAdd[OF assms(2), of now author quote]
  by (auto simp: AddQuote_def split: if_splits sum.splits)

lemma fk_ok_DelQuote:
  assumes "db q = Some d" and "fk_ok d" and "DelQuote q flt i = Return (r, q')"
  shows "\<exists>d'. db q' = Some d' \<and> fk_ok d'"
proof (cases "DelQuote_runTx d flt i")
  case (Inl e)
  then show ?thesis using assms by (auto simp: DelQuote_def split: if_splits)
next
  case (Inr p)
  obtain n tx where p: "p = (n, tx)" by (cases p)
  have "fk_ok tx" using DelQuote_runTx_Inr[OF Inr[unfolded p]] assms(2) by (simp add: fk_ok_cascaded)
  then show ?thesis using assms Inr p by (auto simp: DelQuote_def split: if_splits)
qed

text \<open>
  C10. On an open engine whose votes obey the foreign key, for an id with no quote row,
  \<^verbatim>\<open>Votes\<close> (unnamed/part_001) returns (0, 0) with a nil error when its two queries run: it
  never looks at the quotes table.
\<close>

theorem Votes_missing_quote_zero:
  assumes "db q = Some d" and "fk_ok d" and "sqlHasQuote d i = 0"
    and "GetUpvotes \<notin> flt" and "GetDownvotes \<notin> flt"
  shows "Votes q flt i = Return (0, 0, None)"
  using assms(1,4,5) fk_no_votes[OF assms(2,3)]
  by (simp add: Votes_def sqlGetUpvotes_def sqlGetDownvotes_def)

theorem Votes_missing_quote_zero_witness:
  "db (engine store_upvoted) = Some store_upvoted \<and> fk_ok store_upvoted \<and>
   sqlHasQuote store_upvoted 2 = 0 \<and> GetUpvotes \<notin> {Commit} \<and> GetDownvotes \<notin> {Commit} \<and>
   Votes (engine store_upvoted) {Commit} 2 = Return (0, 0, None)"
proof -
  have h1: "db (engine store_upvoted) = Some store_upvoted" by (simp add: engine_def)
  have h2: "fk_ok store_upvoted" by (simp add: fk_ok_def store_upvoted_def)
  have h3: "sqlHasQuote store_upvoted 2 = 0" by (simp add: sqlHasQuote_def store_upvoted_def)
  have h4: "GetUpvotes \<notin> {Commit}" by simp
  have h5: "GetDownvotes \<notin> {Commit}" by simp
  show ?thesis
    by (rule conjI[OF h1 conjI[OF h2 conjI[OF h3 conjI[OF h4 conjI[OF h5
          Votes_missing_quote_zero[OF h1 h2 h3 h4 h5]]]]]])
qed

section \<open>Random selection\<close>

lemma sqlGetRandom_empty: "candidates d = [] \<Longrightarrow> sqlGetRandom d rnd = None"
  by (simp add: sqlGetRandom_def)

lemma sqlGetRandom_member:
  assumes "candidates d \<noteq> []"
  shows "\<exists>x \<in> set (candidates d). sqlGetRandom d rnd = Some x"
proof -
  let ?zs = "zip (map rnd [0..<length (candidates d)]) (candidates d)"
  have "length (sort_key fst ?zs) = length (candidates d)" by simp
  then obtain k x rest where s: "sort_key fst ?zs = (k, x) # rest"
    using assms by (cases "sort_key fst ?zs") auto
  then have "(k, x) \<in> set (sort_key fst ?zs)" by simp
  then have "(k, x) \<in> set ?zs" by simp
  then have "x \<in> set (candidates d)" by (rule set_zip_rightD)
  then show ?thesis using s by (auto simp: sqlGetRandom_def)
qed

lemma sqlGetRandom_reaches:
  assumes "x \<in> set (candidates d)"
  shows "\<exists>rnd. sqlGetRandom d rnd = Some x"
proof -
  let ?n = "length (candidates d)"
  obtain j where j: "j < ?n" "candidates d ! j = x"
    using assms by (auto simp: in_set_conv_nth)
  let ?rnd = "\<lambda>k. if k = j then (0::int) else 1"
  let ?zs = "zip (map ?rnd [0..<?n]) (candidates d)"
  have len: "length ?zs = ?n" by simp
  have "?zs ! j = (0, x)" using j by simp
  then have mem: "(0, x) \<in> set ?zs" using j len by (metis nth_mem)
  have "length (sort_key fst ?zs) = ?n" by simp
  then obtain k0 x0 rest where s: "sort_key fst ?zs = (k0, x0) # rest"
    using j(1) by (cases "sort_key fst ?zs") auto
  have "sorted (map fst (sort_key fst ?zs))" by (rule sorted_sort_key)
  moreover have "(0, x) \<in> set (sort_key fst ?zs)" using mem by simp
  ultimately have le: "k0 \<le> 0" using s by auto
  have "(k0, x0) \<in> set ?zs" using s by (metis list.set_intros(1) set_sort)
  then obtain m where m: "m < ?n" "k0 = ?rnd m" "x0 = candidates d ! m"
    by (auto simp: set_zip)
  have "m = j" using le m(2) by (simp split: if_splits)
  then have "x0 = x" using m(3) j(2) by simp
  then have "sqlGetRandom d ?rnd = Some x" using s by (simp add: sqlGetRandom_def)
  then show ?thesis by blast
qed

text \<open>
  Uniform selection. In a run without equal draws the row with the least draw is returned;
  exchanging the draws of two rows maps the runs that select one onto the runs that select
  the other, so every row is selected by the same number of runs.
\<close>

lemma sqlGetRandom_least:
  assumes "length ks = length (candidates d)" and "distinct ks"
    and "j < length ks" and "\<forall>k < length ks. ks ! j \<le> ks ! k"
  shows "sqlGetRandom d (nth ks) = Some (candidates d ! j)"
proof -
  let ?n = "length (candidates d)"
  have ks: "map (nth ks) [0..<?n] = ks" using assms(1) by (metis map_nth)
  let ?zs = "zip ks (candidates d)"
  have len: "length ?zs = ?n" using assms(1) by simp
  have "?zs ! j = (ks ! j, candidates d ! j)" using assms(1,3) by simp
  then have mem: "(ks ! j, candidates d ! j) \<in> set ?zs"
    using assms(1,3) len by (metis nth_mem)
  have "length (sort_key fst ?zs) = ?n" using assms(1) by simp
  then obtain k0 x0 rest where s: "sort_key fst ?zs = (k0, x0) # rest"
    using assms(1,3) by (cases "sort_key fst ?zs") auto
  have "sorted (map fst (sort_key fst ?zs))" by (rule sorted_sort_key)
  moreover have "(ks ! j, candidates d ! j) \<in> set (sort_key fst ?zs)" using mem by simp
  ultimately have le: "k0 \<le> ks ! j" using s by auto
  have "(k0, x0) \<in> set ?zs" using s by (metis list.set_intros(1) set_sort)
  then obtain m where m: "m < ?n" "k0 = ks ! m" "x0 = candidates d ! m"
    using assms(1) by (auto simp: set_zip)
  have "ks ! j \<le> ks ! m" using assms(1,4) m(1) by simp
  then have "ks ! m = ks ! j" using le m(2) by simp
  then have "m = j" using assms(1,2,3) m(1) by (simp add: nth_eq_iff_index_eq)
  then have "x0 = candidates d ! j" using m(3) by simp
  then show ?thesis using s ks by (simp add: sqlGetRandom_def)
qed

lemma least_draw_exists:
  assumes "0 < length (ks :: int list)"
  shows "\<exists>j < length ks. \<forall>k < length ks. ks ! j \<le> ks ! k"
proof -
  have ne: "set ks \<noteq> {}" using assms by auto
  then have "Min (set ks) \<in> set ks" by simp
  then obtain j where j: "j < length ks" "ks ! j = Min (set ks)"
    by (auto simp: in_set_conv_nth)
  have "\<forall>k < length ks. ks ! j \<le> ks ! k" using j(2) by simp
  then show ?thesis using j(1) by blast
qed

lemma distinct_candidates: "pk_ok d \<Longrightarrow> distinct (candidates d)"
proof -
  assume "pk_ok d"
  then have "distinct (map ID (map (row_Quote d) (quotes d)))"
    by (simp add: pk_ok_def row_Quote_def comp_def)
  then have "distinct (map ID (candidates d))"
    unfolding candidates_def by (rule distinct_map_filter)
  then show ?thesis by (rule distinct_map[THEN iffD1, THEN conjunct1])
qed

lemma nth_swap_at:
  assumes "j < length ks" and "k < length ks" and "l < length ks"
  shows "swap_at j k ks ! l = (if l = k then ks ! j else if l = j then ks ! k else ks ! l)"
  using assms by (simp add: swap_at_def nth_list_update)

lemma length_swap_at [simp]: "length (swap_at j k ks) = length ks"
  by (simp add: swap_at_def)

lemma swap_at_twice:
  assumes "j < length ks" and "k < length ks"
  shows "swap_at j k (swap_at j k ks) = ks"
proof (rule nth_equalityI)
  show "length (swap_at j k (swap_at j k ks)) = length ks" by simp
next
  fix l assume "l < length (swap_at j k (swap_at j k ks))"
  then have l: "l < length ks" by simp
  have "swap_at j k (swap_at j k ks) ! l =
          (if l = k then swap_at j k ks ! j else if l = j then swap_at j k ks ! k
           else swap_at j k ks ! l)"
    using assms l by (intro nth_swap_at) simp_all
  also have "\<dots> = ks ! l"
    using assms l by (simp add: nth_swap_at)
  finally show "swap_at j k (swap_at j k ks) ! l = ks ! l" .
qed

lemma swap_at_tie_free:
  assumes "ks \<in> tie_free_draws n V" and "j < n" and "k < n"
  shows "swap_at j k ks \<in> tie_free_draws n V"
proof -
  have ks: "length ks = n" "distinct ks" "set ks \<subseteq> V"
    using assms(1) by (simp_all add: tie_free_draws_def)
  have "distinct (swap_at j k ks)"
    unfolding swap_at_def using ks(1,2) assms(2,3) by (simp add: distinct_swap)
  moreover have "set (swap_at j k ks) = set ks"
    unfolding swap_at_def using ks(1) assms(2,3) by (simp add: set_swap)
  ultimately show ?thesis using ks by (simp add: tie_free_draws_def)
qed

text \<open>The tie-free runs in which row \<open>j\<close> draws the least number.\<close>

lemma swap_at_least:
  assumes "ks \<in> tie_free_draws n V" and "j < n" and "k < n"
    and "\<forall>l < n. ks ! j \<le> ks ! l"
  shows "\<forall>l < n. swap_at j k ks ! k \<le> swap_at j k ks ! l"
proof (intro allI impI)
  fix l assume l: "l < n"
  have len: "length ks = n" using assms(1) by (simp add: tie_free_draws_def)
  have a: "swap_at j k ks ! k = ks ! j" using assms(2,3) len by (simp add: nth_swap_at)
  have b: "swap_at j k ks ! l = (if l = k then ks ! j else if l = j then ks ! k else ks ! l)"
    using assms(2,3) l len by (intro nth_swap_at) simp_all
  show "swap_at j k ks ! k \<le> swap_at j k ks ! l"
    unfolding a b using assms(3,4) l by simp
qed

lemma swap_at_maps:
  assumes "j < n" and "k < n"
    and "ks \<in> {ks \<in> tie_free_draws n V. \<forall>l < n. ks ! j \<le> ks ! l}"
  shows "swap_at j k ks \<in> {ks \<in> tie_free_draws n V. \<forall>l < n. ks ! k \<le> ks ! l}"
proof -
  have ks: "ks \<in> tie_free_draws n V" and le: "\<forall>l < n. ks ! j \<le> ks ! l"
    using assms(3) by simp_all
  have "swap_at j k ks \<in> tie_free_draws n V"
    by (rule swap_at_tie_free[OF ks assms(1,2)])
  moreover have "\<forall>l < n. swap_at j k ks ! k \<le> swap_at j k ks ! l"
    by (rule swap_at_least[OF ks assms(1,2) le])
  ultimately show ?thesis by simp
qed

lemma swap_at_sym:
  assumes "j < length ks" and "k < length ks"
  shows "swap_at j k ks = swap_at k j ks"
proof (rule nth_equalityI)
  show "length (swap_at j k ks) = length (swap_at k j ks)" by simp
next
  fix l assume "l < length (swap_at j k ks)"
  then have l: "l < length ks" by simp
  have a: "swap_at j k ks ! l = (if l = k then ks ! j else if l = j then ks ! k else ks ! l)"
    using assms l by (intro nth_swap_at)
  have b: "swap_at k j ks ! l = (if l = j then ks ! k else if l = k then ks ! j else ks ! l)"
    using assms l by (intro nth_swap_at)
  show "swap_at j k ks ! l = swap_at k j ks ! l" unfolding a b by simp
qed

lemma card_least_eq:
  assumes "j < n" and "k < n"
  shows "card {ks \<in> tie_free_draws n V. \<forall>l < n. ks ! j \<le> ks ! l} =
         card {ks \<in> tie_free_draws n V. \<forall>l < n. ks ! k \<le> ks ! l}"
proof -
  let ?A = "{ks \<in> tie_free_draws n V. \<forall>l < n. ks ! j \<le> ks ! l}"
  let ?B = "{ks \<in> tie_free_draws n V. \<forall>l < n. ks ! k \<le> ks ! l}"
  have len: "\<And>ks. ks \<in> tie_free_draws n V \<Longrightarrow> length ks = n"
    by (simp add: tie_free_draws_def)
  have "bij_betw (swap_at j k) ?A ?B"
  proof (rule bij_betw_byWitness[where f' = "swap_at j k"])
    show "\<forall>ks \<in> ?A. swap_at j k (swap_at j k ks) = ks"
    proof
      fix ks assume "ks \<in> ?A"
      then have "length ks = n" using len by simp
      then show "swap_at j k (swap_at j k ks) = ks" using assms by (intro swap_at_twice) simp_all
    qed
    show "\<forall>ks \<in> ?B. swap_at j k (swap_at j k ks) = ks"
    proof
      fix ks assume "ks \<in> ?B"
      then have "length ks = n" using len by simp
      then show "swap_at j k (swap_at j k ks) = ks" using assms by (intro swap_at_twice) simp_all
    qed
    show "swap_at j k ` ?A \<subseteq> ?B"
    proof
      fix y assume "y \<in> swap_at j k ` ?A"
      then obtain ks where ks: "ks \<in> ?A" "y = swap_at j k ks" by blast
      show "y \<in> ?B" unfolding ks(2) by (rule swap_at_maps[OF assms ks(1)])
    qed
    show "swap_at j k ` ?B \<subseteq> ?A"
    proof
      fix y assume "y \<in> swap_at j k ` ?B"
      then obtain ks where ks: "ks \<in> ?B" "y = swap_at j k ks" by blast
      have "length ks = n" using ks(1) len by simp
      then have "swap_at j k ks = swap_at k j ks" using assms by (intro swap_at_sym) simp_all
      then show "y \<in> ?A" unfolding ks(2) using swap_at_maps[OF assms(2,1) ks(1)] by simp
    qed
  qed
  then show ?thesis by (rule bij_betw_same_card)
qed

lemma finite_tie_free: "finite V \<Longrightarrow> finite (tie_free_draws n V)"
proof -
  assume "finite V"
  then have "finite {ks. set ks \<subseteq> V \<and> length ks = n}" by (rule finite_lists_length_eq)
  moreover have "tie_free_draws n V \<subseteq> {ks. set ks \<subseteq> V \<and> length ks = n}"
    by (auto simp: tie_free_draws_def)
  ultimately show ?thesis by (rule rev_finite_subset)
qed

lemma tie_free_split:
  assumes "finite V" and "j < n"
  shows "n * card {ks \<in> tie_free_draws n V. \<forall>l < n. ks ! j \<le> ks ! l} = card (tie_free_draws n V)"
proof -
  let ?A = "\<lambda>j. {ks \<in> tie_free_draws n V. \<forall>l < n. ks ! j \<le> ks ! l}"
  have fin: "\<forall>i \<in> {..<n}. finite (?A i)" using finite_tie_free[OF assms(1), of n] by simp
  have disj: "\<forall>i \<in> {..<n}. \<forall>k \<in> {..<n}. i \<noteq> k \<longrightarrow> ?A i \<inter> ?A k = {}"
  proof (intro ballI impI)
    fix i k assume i: "i \<in> {..<n}" and k: "k \<in> {..<n}" and ne: "i \<noteq> k"
    show "?A i \<inter> ?A k = {}"
    proof (rule ccontr)
      assume "?A i \<inter> ?A k \<noteq> {}"
      then obtain ks where ks: "ks \<in> ?A i" "ks \<in> ?A k" by blast
      then have "ks ! i \<le> ks ! k" "ks ! k \<le> ks ! i" using i k by auto
      then have "ks ! i = ks ! k" by simp
      moreover have "distinct ks" "length ks = n" using ks(1) by (auto simp: tie_free_draws_def)
      ultimately show False using i k ne by (simp add: nth_eq_iff_index_eq)
    qed
  qed
  have un: "tie_free_draws n V = (\<Union>i \<in> {..<n}. ?A i)"
  proof
    show "tie_free_draws n V \<subseteq> (\<Union>i \<in> {..<n}. ?A i)"
    proof
      fix ks assume ks: "ks \<in> tie_free_draws n V"
      then have len: "length ks = n" by (simp add: tie_free_draws_def)
      then have "0 < length ks" using assms(2) by simp
      from least_draw_exists[OF this] obtain i where "i < n" "\<forall>l < n. ks ! i \<le> ks ! l"
        using len by auto
      then show "ks \<in> (\<Union>i \<in> {..<n}. ?A i)" using ks by auto
    qed
    show "(\<Union>i \<in> {..<n}. ?A i) \<subseteq> tie_free_draws n V" by auto
  qed
  have "card (tie_free_draws n V) = card (\<Union>i \<in> {..<n}. ?A i)" using un by simp
  also have "\<dots> = (\<Sum>i \<in> {..<n}. card (?A i))"
    by (rule card_UN_disjoint) (use fin disj in auto)
  also have "\<dots> = (\<Sum>i \<in> {..<n}. card (?A j))"
  proof (rule sum.cong[OF refl])
    fix i assume "i \<in> {..<n}"
    then have i: "i < n" by simp
    show "card (?A i) = card (?A j)" by (rule card_least_eq[OF i assms(2)])
  qed
  also have "\<dots> = n * card (?A j)" by simp
  finally show ?thesis by simp
qed

lemma drawn_iff_least:
  assumes "db q = Some d" and "GetRandom \<notin> flt" and "pk_ok d"
    and "j < length (candidates d)" and "ks \<in> tie_free_draws (length (candidates d)) V"
  shows "RandomQuote q flt (nth ks) = Return (candidates d ! j, None) \<longleftrightarrow>
         (\<forall>l < length (candidates d). ks ! j \<le> ks ! l)"
proof -
  let ?n = "length (candidates d)"
  have len: "length ks = ?n" and dist: "distinct ks"
    using assms(5) by (auto simp: tie_free_draws_def)
  have "0 < length ks" using len assms(4) by linarith
  from least_draw_exists[OF this] obtain m where m: "m < ?n" "\<forall>l < ?n. ks ! m \<le> ks ! l"
    using len by auto
  have sel: "sqlGetRandom d (nth ks) = Some (candidates d ! m)"
    using sqlGetRandom_least[of ks d m] len dist m by simp
  then have r: "RandomQuote q flt (nth ks) = Return (candidates d ! m, None)"
    using assms(1,2) by (simp add: RandomQuote_def)
  show ?thesis
  proof
    assume "RandomQuote q flt (nth ks) = Return (candidates d ! j, None)"
    then have "candidates d ! m = candidates d ! j" using r by simp
    then have "m = j"
      using distinct_candidates[OF assms(3)] m(1) assms(4) by (simp add: nth_eq_iff_index_eq)
    then show "\<forall>l < ?n. ks ! j \<le> ks ! l" using m(2) by simp
  next
    assume "\<forall>l < ?n. ks ! j \<le> ks ! l"
    then have "ks ! j = ks ! m" using m assms(4) by (simp add: order_antisym)
    then have "j = m" using dist len m(1) assms(4) by (simp add: nth_eq_iff_index_eq)
    then show "RandomQuote q flt (nth ks) = Return (candidates d ! j, None)" using r by simp
  qed
qed

lemma RandomQuote_share:
  assumes "db q = Some d" and "GetRandom \<notin> flt" and "pk_ok d" and "finite V"
    and "x \<in> set (candidates d)"
  shows "length (candidates d) *
           card {ks \<in> tie_free_draws (length (candidates d)) V.
                   RandomQuote q flt (nth ks) = Return (x, None)} =
         card (tie_free_draws (length (candidates d)) V)"
proof -
  let ?n = "length (candidates d)"
  obtain j where j: "j < ?n" "candidates d ! j = x"
    using assms(5) by (auto simp: in_set_conv_nth)
  have "{ks \<in> tie_free_draws ?n V. RandomQuote q flt (nth ks) = Return (x, None)} =
        {ks \<in> tie_free_draws ?n V. \<forall>l < ?n. ks ! j \<le> ks ! l}"
    using drawn_iff_least[OF assms(1,2,3) j(1), of _ V] j(2) by auto
  then show ?thesis using tie_free_split[OF assms(4) j(1)] by simp
qed

lemma candidates_above: "x \<in> set (candidates d) \<Longrightarrow> - 2 < Upvotes x - Downvotes x"
  by (simp add: candidates_def above_threshold_def quoteThreshold_def)

lemma candidates_rows:
  "set (candidates d) =
     {row_Quote d r |r. r \<in> set (quotes d) \<and>
                        - 2 < sqlGetUpvotes d (q_id r) - sqlGetDownvotes d (q_id r)}"
  by (auto simp: candidates_def above_threshold_def quoteThreshold_def row_Quote_def)

text \<open>
  C5 as stated fails: \<^verbatim>\<open>RandomQuote\<close> has no \<^verbatim>\<open>filterLow\<close> argument and always applies the
  threshold. On a database whose only quote has three down votes (score -3) it returns
  \<^verbatim>\<open>sql.ErrNoRows\<close>, although the set of all quotes is not empty.
\<close>

theorem RandomQuote_always_filters:
  "sqlGetCount store_low = 1 \<and>
   RandomQuote (engine store_low) {} draws_zero = Return (zero_Quote, Some ErrNoRows)"
  by (simp add: RandomQuote_def sqlGetRandom_def candidates_def above_threshold_def
        quoteThreshold_def row_Quote_def sqlGetUpvotes_def sqlGetDownvotes_def sqlGetCount_def
        engine_def store_low_def)

text \<open>
  C5 amended. \<^verbatim>\<open>RandomQuote\<close> takes no \<^verbatim>\<open>filterLow\<close> argument and always applies the threshold.
  On an open engine, when its query runs, the candidates are the quotes whose up votes minus
  down votes exceed -2; it returns \<^verbatim>\<open>sql.ErrNoRows\<close> when there is no candidate and a
  candidate otherwise; every candidate is returned for some run of \<^verbatim>\<open>RANDOM()\<close>; it never
  returns a quote whose score is at most -2; and it selects uniformly among the candidates:
  with distinct quote ids and \<open>n\<close> candidates, of the runs of \<^verbatim>\<open>RANDOM()\<close> with values
  from a finite set \<open>V\<close> in which no two rows draw the same number, exactly one in \<open>n\<close>
  returns any given candidate.
\<close>

theorem RandomQuote_above_threshold:
  assumes "db q = Some d" and "GetRandom \<notin> flt"
  shows "set (candidates d) =
           {row_Quote d r |r. r \<in> set (quotes d) \<and>
                              - 2 < sqlGetUpvotes d (q_id r) - sqlGetDownvotes d (q_id r)} \<and>
         (candidates d = [] \<longrightarrow> RandomQuote q flt rnd = Return (zero_Quote, Some ErrNoRows)) \<and>
         (candidates d \<noteq> [] \<longrightarrow>
            (\<exists>x \<in> set (candidates d). RandomQuote q flt rnd = Return (x, None))) \<and>
         (\<forall>x \<in> set (candidates d). \<exists>draw. RandomQuote q flt draw = Return (x, None)) \<and>
         (\<forall>x. RandomQuote q flt rnd = Return (x, None) \<longrightarrow> - 2 < Upvotes x - Downvotes x) \<and>
         (pk_ok d \<and> finite V \<longrightarrow>
            (\<forall>x \<in> set (candidates d).
               length (candidates d) *
                 card {ks \<in> tie_free_draws (length (candidates d)) V.
                         RandomQuote q flt (nth ks) = Return (x, None)} =
               card (tie_free_draws (length (candidates d)) V)))"
proof (intro conjI)
  show "set (candidates d) =
           {row_Quote d r |r. r \<in> set (quotes d) \<and>
                              - 2 < sqlGetUpvotes d (q_id r) - sqlGetDownvotes d (q_id r)}"
    by (rule candidates_rows)
  show "candidates d = [] \<longrightarrow> RandomQuote q flt rnd = Return (zero_Quote, Some ErrNoRows)"
    using assms by (simp add: RandomQuote_def sqlGetRandom_empty)
  show nonempty: "candidates d \<noteq> [] \<longrightarrow>
            (\<exists>x \<in> set (candidates d). RandomQuote q flt rnd = Return (x, None))"
  proof
    assume "candidates d \<noteq> []"
    from sqlGetRandom_member[OF this, of rnd]
    show "\<exists>x \<in> set (candidates d). RandomQuote q flt rnd = Return (x, None)"
      using assms by (auto simp: RandomQuote_def)
  qed
  show "\<forall>x \<in> set (candidates d). \<exists>draw. RandomQuote q flt draw = Return (x, None)"
  proof
    fix x assume "x \<in> set (candidates d)"
    from sqlGetRandom_reaches[OF this]
    obtain draw where "sqlGetRandom d draw = Some x" by blast
    then have "RandomQuote q flt draw = Return (x, None)"
      using assms by (simp add: RandomQuote_def)
    then show "\<exists>draw. RandomQuote q flt draw = Return (x, None)" by blast
  qed
  show "\<forall>x. RandomQuote q flt rnd = Return (x, None) \<longrightarrow> - 2 < Upvotes x - Downvotes x"
  proof (intro allI impI)
    fix x assume r: "RandomQuote q flt rnd = Return (x, None)"
    then have "sqlGetRandom d rnd = Some x"
      using assms by (auto simp: RandomQuote_def split: option.splits)
    moreover have "candidates d \<noteq> []"
      using calculation sqlGetRandom_empty[of d rnd] by auto
    ultimately have "x \<in> set (candidates d)"
      using sqlGetRandom_member[of d rnd] by auto
    then show "- 2 < Upvotes x - Downvotes x" by (rule candidates_above)
  qed
  show "pk_ok d \<and> finite V \<longrightarrow>
          (\<forall>x \<in> set (candidates d).
             length (candidates d) *
               card {ks \<in> tie_free_draws (length (candidates d)) V.
                       RandomQuote q flt (nth ks) = Return (x, None)} =
             card (tie_free_draws (length (candidates d)) V))"
  proof (intro impI ballI)
    fix x assume a: "pk_ok d \<and> finite V" and x: "x \<in> set (candidates d)"
    show "length (candidates d) *
            card {ks \<in> tie_free_draws (length (candidates d)) V.
                    RandomQuote q flt (nth ks) = Return (x, None)} =
          card (tie_free_draws (length (candidates d)) V)"
      by (rule RandomQuote_share[OF assms a[THEN conjunct1] a[THEN conjunct2] x])
  qed
qed

theorem RandomQuote_above_threshold_witness:
  "db (engine store_mixed) = Some store_mixed \<and> GetRandom \<notin> {} \<and> pk_ok store_mixed \<and>
   finite {2, 5 :: int} \<and> sqlGetCount store_mixed = 3 \<and>
   sqlGetUpvotes store_mixed 1 - sqlGetDownvotes store_mixed 1 = - 3 \<and>
   candidates store_mixed = [mixed_two, mixed_three] \<and>
   RandomQuote (engine store_mixed) {} (nth [2, 5]) = Return (mixed_two, None) \<and>
   RandomQuote (engine store_mixed) {} (nth [5, 2]) = Return (mixed_three, None) \<and>
   - 2 < Upvotes mixed_three - Downvotes mixed_three \<and>
   tie_free_draws 2 {2, 5} = {[2, 5], [5, 2]} \<and>
   2 * card {ks \<in> tie_free_draws 2 {2, 5}.
              RandomQuote (engine store_mixed) {} (nth ks) = Return (mixed_three, None)} = 2"
proof -
  have h1: "db (engine store_mixed) = Some store_mixed" by (simp add: engine_def)
  have h2: "GetRandom \<notin> {}" by simp
  have h3: "pk_ok store_mixed" by (simp add: pk_ok_def store_mixed_def)
  have h4: "finite {2, 5 :: int}" by simp
  have c: "sqlGetCount store_mixed = 3" by (simp add: sqlGetCount_def store_mixed_def)
  have low: "sqlGetUpvotes store_mixed 1 - sqlGetDownvotes store_mixed 1 = - 3"
    by (simp add: sqlGetUpvotes_def sqlGetDownvotes_def store_mixed_def)
  have cands: "candidates store_mixed = [mixed_two, mixed_three]"
    by (simp add: candidates_def above_threshold_def quoteThreshold_def row_Quote_def
          sqlGetUpvotes_def sqlGetDownvotes_def store_mixed_def mixed_two_def mixed_three_def)
  have r1: "RandomQuote (engine store_mixed) {} (nth [2, 5]) = Return (mixed_two, None)"
    by (simp add: RandomQuote_def sqlGetRandom_def cands engine_def)
  have r2: "RandomQuote (engine store_mixed) {} (nth [5, 2]) = Return (mixed_three, None)"
    by (simp add: RandomQuote_def sqlGetRandom_def cands engine_def)
  note T = RandomQuote_above_threshold[OF h1 h2, where rnd = "nth [5, 2]" and V = "{2, 5}"]
  note T5 = T[THEN conjunct2, THEN conjunct2, THEN conjunct2, THEN conjunct2]
  have s: "- 2 < Upvotes mixed_three - Downvotes mixed_three"
    by (rule T5[THEN conjunct1, rule_format, OF r2])
  have mem: "mixed_three \<in> set (candidates store_mixed)" by (simp add: cands)
  have u: "length (candidates store_mixed) *
             card {ks \<in> tie_free_draws (length (candidates store_mixed)) {2, 5}.
                     RandomQuote (engine store_mixed) {} (nth ks) = Return (mixed_three, None)} =
           card (tie_free_draws (length (candidates store_mixed)) {2, 5})"
    by (rule T5[THEN conjunct2, rule_format, OF conjI[OF h3 h4] mem])
  have tf: "tie_free_draws 2 {2, 5} = {[2, 5], [5, 2]}"
  proof (rule set_eqI, rule iffI)
    fix ks :: "int list" assume "ks \<in> tie_free_draws 2 {2, 5}"
    then have ks: "length ks = Suc (Suc 0)" "distinct ks" "set ks \<subseteq> {2, 5}"
      by (simp_all add: tie_free_draws_def)
    from ks(1) obtain a b where ab: "ks = [a, b]" by (auto simp: length_Suc_conv)
    show "ks \<in> {[2, 5], [5, 2]}" using ks(2,3) unfolding ab by auto
  next
    fix ks :: "int list" assume "ks \<in> {[2, 5], [5, 2]}"
    then show "ks \<in> tie_free_draws 2 {2, 5}" by (auto simp: tie_free_draws_def)
  qed
  have two: "length (candidates store_mixed) = 2" by (simp add: cands)
  have "card (tie_free_draws 2 {2, 5}) = 2" unfolding tf by simp
  then have share: "2 * card {ks \<in> tie_free_draws 2 {2, 5}.
              RandomQuote (engine store_mixed) {} (nth ks) = Return (mixed_three, None)} = 2"
    using u unfolding two by simp
  show ?thesis
    by (rule conjI[OF h1 conjI[OF h2 conjI[OF h3 conjI[OF h4 conjI[OF c conjI[OF low
          conjI[OF cands conjI[OF r1 conjI[OF r2 conjI[OF s conjI[OF tf share]]]]]]]]]]])
qed

section \<open>Listing and ranking\<close>

lemma GetAll_rows_Inr: "GetAll_rows flt rows acc = Inr qs \<Longrightarrow> qs = acc @ rows"
proof (induction rows arbitrary: acc)
  case Nil
  then show ?case by simp
next
  case (Cons row rows)
  then have "GetAll_rows flt rows (acc @ [row]) = Inr qs" by (simp split: if_splits)
  then have "qs = (acc @ [row]) @ rows" by (rule Cons.IH)
  then show ?case by simp
qed

lemma sorted_desc_rev_sort_key: "sorted_wrt (\<lambda>a b. f b \<le> f a) (rev (sort_key f xs))"
proof -
  have "sorted (map f (sort_key f xs))" by (rule sorted_sort_key)
  then have "sorted_wrt (\<lambda>a b. f a \<le> f b) (sort_key f xs)" by (simp add: sorted_map)
  then show ?thesis by (simp add: sorted_wrt_rev)
qed

lemma GetAll_result:
  assumes "db q = Some d" and "GetAll q flt filterLow = Return (qs, None)"
  shows "qs = (if filterLow then sqlGetAllFiltered d else sqlGetAll d)"
  using assms
  by (auto simp: GetAll_def split: if_splits sum.splits dest: GetAll_rows_Inr)

lemma set_insert_less: "set (insert_less lessf x ys) = insert x (set ys)"
  by (induction ys) auto

lemma mset_insert_less: "mset (insert_less lessf x ys) = add_mset x (mset ys)"
  by (induction ys) auto

lemma mset_sort_Slice: "mset (sort_Slice lessf xs) = mset xs"
  unfolding sort_Slice_def by (induction xs) (simp_all add: mset_insert_less)

lemma sorted_insert_less:
  assumes trans: "\<And>a b c. \<not> lessf b a \<Longrightarrow> \<not> lessf c b \<Longrightarrow> \<not> lessf c a"
    and asym: "\<And>a b. lessf a b \<Longrightarrow> \<not> lessf b a"
    and "sorted_wrt (\<lambda>a b. \<not> lessf b a) ys"
  shows "sorted_wrt (\<lambda>a b. \<not> lessf b a) (insert_less lessf x ys)"
  using assms(3)
proof (induction ys)
  case Nil
  then show ?case by simp
next
  case (Cons y ys)
  show ?case
  proof (cases "lessf y x")
    case True
    then show ?thesis using Cons asym by (auto simp: set_insert_less)
  next
    case False
    then show ?thesis using Cons trans by auto
  qed
qed

lemma sorted_sort_Slice:
  assumes "\<And>a b c. \<not> lessf b a \<Longrightarrow> \<not> lessf c b \<Longrightarrow> \<not> lessf c a"
    and "\<And>a b. lessf a b \<Longrightarrow> \<not> lessf b a"
  shows "sorted_wrt (\<lambda>a b. \<not> lessf b a) (sort_Slice lessf xs)"
  unfolding sort_Slice_def
  by (induction xs) (simp_all add: sorted_insert_less[OF assms])

lemma not_votesort_less:
  "\<not> votesort_less b a \<longleftrightarrow>
     Upvotes b - Downvotes b < Upvotes a - Downvotes a \<or>
     (Upvotes a - Downvotes a = Upvotes b - Downvotes b \<and> ID b \<le> ID a)"
  by (auto simp: votesort_less_def Let_def)

lemma sorted_votesort:
  "sorted_wrt (\<lambda>a b. Upvotes b - Downvotes b < Upvotes a - Downvotes a \<or>
                      (Upvotes a - Downvotes a = Upvotes b - Downvotes b \<and> ID b \<le> ID a))
     (sort_Slice votesort_less xs)"
proof -
  have "sorted_wrt (\<lambda>a b. \<not> votesort_less b a) (sort_Slice votesort_less xs)"
    by (rule sorted_sort_Slice) (auto simp: votesort_less_def Let_def)
  then show ?thesis by (simp add: not_votesort_less)
qed

lemma GetAll_rows_ok: "Scan \<notin> flt \<Longrightarrow> GetAll_rows flt rows acc = Inr (acc @ rows)"
  by (induction rows arbitrary: acc) simp_all

lemma GetAll_ok:
  assumes "db q = Some d" and "QueryAll \<notin> flt" and "Scan \<notin> flt" and "RowsClose \<notin> flt"
    and "RowsErr \<notin> flt"
  shows "GetAll q flt filterLow =
           Return (rev (sort_key ID (if filterLow then candidates d
                                     else map (row_Quote d) (quotes d))), None)"
  using assms by (simp add: GetAll_def GetAll_rows_ok sqlGetAll_def sqlGetAllFiltered_def)

lemma GetAll_sorted:
  assumes "db q = Some d" and "GetAll q flt filterLow = Return (qs, None)"
  shows "sorted_wrt (\<lambda>a b. ID b \<le> ID a) qs"
    and "mset qs = mset (if filterLow then candidates d else map (row_Quote d) (quotes d))"
proof -
  note r = GetAll_result[OF assms]
  have "qs = rev (sort_key ID (if filterLow then candidates d else map (row_Quote d) (quotes d)))"
    using r by (simp add: sqlGetAll_def sqlGetAllFiltered_def)
  then show "sorted_wrt (\<lambda>a b. ID b \<le> ID a) qs"
    by (simp only: sorted_desc_rev_sort_key)
  show "mset qs = mset (if filterLow then candidates d else map (row_Quote d) (quotes d))"
    using r by (simp add: sqlGetAll_def sqlGetAllFiltered_def)
qed

text \<open>
  C8. On an open engine, when none of its calls fails, \<^verbatim>\<open>GetAll\<close> returns without error the
  quotes (those above the threshold when \<^verbatim>\<open>filterLow\<close> is set) ordered by id, largest
  first, whatever their votes; and whenever it returns a list without error, the list is
  that one. When the request passes the password check, asks for the path "/" and no call
  fails, \<^verbatim>\<open>quotesRoot\<close> answers with a page that shows the list \<^verbatim>\<open>GetAll\<close> returned as it is,
  unless the request asks for the vote sort, and then shows the same quotes ordered by up
  votes minus down votes, largest first, with the larger id first among equal scores; and
  every page it answers with is of that kind. The ranking is done in \<^verbatim>\<open>quotesRoot\<close>, on the
  list \<^verbatim>\<open>GetAll\<close> returned.
\<close>

theorem GetAll_by_id_votesort_by_caller:
  assumes "db q = Some d"
  shows "(GetAll q flt filterLow = Return (qs, None) \<longrightarrow>
            sorted_wrt (\<lambda>a b. ID b \<le> ID a) qs \<and>
            mset qs = mset (if filterLow then candidates d else map (row_Quote d) (quotes d))) \<and>
         (quotesRoot q flt compare basic path all votesort = Return (StatusOK data) \<longrightarrow>
            (\<exists>shown. GetAll q flt (all \<noteq> ''true'') = Return (shown, None) \<and>
               (votesort \<noteq> ''true'' \<longrightarrow> data_Quotes data = shown) \<and>
               (votesort = ''true'' \<longrightarrow>
                  mset (data_Quotes data) = mset shown \<and>
                  sorted_wrt (\<lambda>a b. Upvotes b - Downvotes b < Upvotes a - Downvotes a \<or>
                                    (Upvotes a - Downvotes a = Upvotes b - Downvotes b \<and> ID b \<le> ID a))
                    (data_Quotes data)))) \<and>
         (QueryAll \<notin> flt \<and> Scan \<notin> flt \<and> RowsClose \<notin> flt \<and> RowsErr \<notin> flt \<longrightarrow>
            (\<exists>listed. GetAll q flt filterLow = Return (listed, None) \<and>
               sorted_wrt (\<lambda>a b. ID b \<le> ID a) listed \<and>
               mset listed = mset (if filterLow then candidates d else map (row_Quote d) (quotes d))) \<and>
            ((webuser q = [] \<and> webhash q = [] \<or>
              (\<exists>user pwd. basic = Some (user, pwd) \<and> webuser q = user \<and> compare (webhash q) pwd)) \<and>
             path = ''/'' \<and> TmplExecute \<notin> flt \<longrightarrow>
               (\<exists>shown page. GetAll q flt (all \<noteq> ''true'') = Return (shown, None) \<and>
                  quotesRoot q flt compare basic path all votesort = Return (StatusOK page) \<and>
                  data_NQuotes page = int (length shown) \<and>
                  (votesort \<noteq> ''true'' \<longrightarrow> data_Quotes page = shown) \<and>
                  (votesort = ''true'' \<longrightarrow>
                     mset (data_Quotes page) = mset shown \<and>
                     sorted_wrt (\<lambda>a b. Upvotes b - Downvotes b < Upvotes a - Downvotes a \<or>
                                       (Upvotes a - Downvotes a = Upvotes b - Downvotes b \<and> ID b \<le> ID a))
                       (data_Quotes page)))))"
proof (intro conjI impI)
  assume g: "GetAll q flt filterLow = Return (qs, None)"
  show "sorted_wrt (\<lambda>a b. ID b \<le> ID a) qs"
    by (rule GetAll_sorted(1)[OF assms g])
  show "mset qs = mset (if filterLow then candidates d else map (row_Quote d) (quotes d))"
    by (rule GetAll_sorted(2)[OF assms g])
next
  assume p: "quotesRoot q flt compare basic path all votesort = Return (StatusOK data)"
  obtain shown e where g: "GetAll q flt (all \<noteq> ''true'') = Return (shown, e)"
    using assms by (cases "GetAll q flt (all \<noteq> ''true'')") (auto simp: GetAll_def)
  have e: "e = None" using p g by (cases e) (auto simp: quotesRoot_def split: if_splits)
  have dq: "data_Quotes data = (if votesort = ''true'' then sort_Slice votesort_less shown else shown)"
    using p g e by (auto simp: quotesRoot_def split: if_splits)
  show "\<exists>shown. GetAll q flt (all \<noteq> ''true'') = Return (shown, None) \<and>
               (votesort \<noteq> ''true'' \<longrightarrow> data_Quotes data = shown) \<and>
               (votesort = ''true'' \<longrightarrow>
                  mset (data_Quotes data) = mset shown \<and>
                  sorted_wrt (\<lambda>a b. Upvotes b - Downvotes b < Upvotes a - Downvotes a \<or>
                                    (Upvotes a - Downvotes a = Upvotes b - Downvotes b \<and> ID b \<le> ID a))
                    (data_Quotes data))"
    using g e dq sorted_votesort[of shown] by (auto simp: mset_sort_Slice)
next
  assume f: "QueryAll \<notin> flt \<and> Scan \<notin> flt \<and> RowsClose \<notin> flt \<and> RowsErr \<notin> flt"
  let ?listed = "rev (sort_key ID (if filterLow then candidates d else map (row_Quote d) (quotes d)))"
  have g: "GetAll q flt filterLow = Return (?listed, None)"
    using f by (intro GetAll_ok[OF assms]) simp_all
  show "\<exists>listed. GetAll q flt filterLow = Return (listed, None) \<and>
               sorted_wrt (\<lambda>a b. ID b \<le> ID a) listed \<and>
               mset listed = mset (if filterLow then candidates d else map (row_Quote d) (quotes d))"
    using g GetAll_sorted[OF assms g] by blast
next
  assume f: "QueryAll \<notin> flt \<and> Scan \<notin> flt \<and> RowsClose \<notin> flt \<and> RowsErr \<notin> flt"
    and a: "(webuser q = [] \<and> webhash q = [] \<or>
              (\<exists>user pwd. basic = Some (user, pwd) \<and> webuser q = user \<and> compare (webhash q) pwd)) \<and>
             path = ''/'' \<and> TmplExecute \<notin> flt"
  let ?shown = "rev (sort_key ID (if all \<noteq> ''true'' then candidates d
                                  else map (row_Quote d) (quotes d)))"
  let ?page = "\<lparr>data_NQuotes = int (length ?shown),
                data_Quotes = (if votesort = ''true'' then sort_Slice votesort_less ?shown else ?shown)\<rparr>"
  have g: "GetAll q flt (all \<noteq> ''true'') = Return (?shown, None)"
    using f by (intro GetAll_ok[OF assms]) simp_all
  have auth: "\<not> ((webuser q \<noteq> [] \<or> webhash q \<noteq> []) \<and>
          (case basic of None \<Rightarrow> True
           | Some (user, pwd) \<Rightarrow> webuser q \<noteq> user \<or> \<not> compare (webhash q) pwd))"
    using a by auto
  have p: "quotesRoot q flt compare basic path all votesort = Return (StatusOK ?page)"
    using a g auth unfolding quotesRoot_def by simp
  have s: "votesort = ''true'' \<longrightarrow>
             mset (data_Quotes ?page) = mset ?shown \<and>
             sorted_wrt (\<lambda>a b. Upvotes b - Downvotes b < Upvotes a - Downvotes a \<or>
                               (Upvotes a - Downvotes a = Upvotes b - Downvotes b \<and> ID b \<le> ID a))
               (data_Quotes ?page)"
    using sorted_votesort[of ?shown] by (simp add: mset_sort_Slice)
  have n: "data_NQuotes ?page = int (length ?shown)" by simp
  have u: "votesort \<noteq> ''true'' \<longrightarrow> data_Quotes ?page = ?shown" by simp
  show "\<exists>shown page. GetAll q flt (all \<noteq> ''true'') = Return (shown, None) \<and>
                  quotesRoot q flt compare basic path all votesort = Return (StatusOK page) \<and>
                  data_NQuotes page = int (length shown) \<and>
                  (votesort \<noteq> ''true'' \<longrightarrow> data_Quotes page = shown) \<and>
                  (votesort = ''true'' \<longrightarrow>
                     mset (data_Quotes page) = mset shown \<and>
                     sorted_wrt (\<lambda>a b. Upvotes b - Downvotes b < Upvotes a - Downvotes a \<or>
                                       (Upvotes a - Downvotes a = Upvotes b - Downvotes b \<and> ID b \<le> ID a))
                       (data_Quotes page))"
    using g p n u s by blast
qed

theorem GetAll_by_id_votesort_by_caller_witness:
  "db (engine store_mixed) = Some store_mixed \<and>
   QueryAll \<notin> {} \<and> Scan \<notin> {} \<and> RowsClose \<notin> {} \<and> RowsErr \<notin> {} \<and> TmplExecute \<notin> {} \<and>
   webuser (engine store_mixed) = [] \<and> webhash (engine store_mixed) = [] \<and>
   GetAll (engine store_mixed) {} True = Return ([mixed_three, mixed_two], None) \<and>
   sorted_wrt (\<lambda>a b. ID b \<le> ID a) [mixed_three, mixed_two] \<and>
   quotesRoot (engine store_mixed) {} accept_none None ''/'' [] ''true'' =
     Return (StatusOK \<lparr>data_NQuotes = 2, data_Quotes = [mixed_two, mixed_three]\<rparr>) \<and>
   (\<exists>listed. GetAll (engine store_mixed) {} True = Return (listed, None) \<and>
      sorted_wrt (\<lambda>a b. ID b \<le> ID a) listed \<and>
      mset listed = mset (if True then candidates store_mixed
                          else map (row_Quote store_mixed) (quotes store_mixed)))"
proof -
  have h1: "db (engine store_mixed) = Some store_mixed" by (simp add: engine_def)
  have f1: "QueryAll \<notin> ({} :: faults)" and f2: "Scan \<notin> ({} :: faults)"
    and f3: "RowsClose \<notin> ({} :: faults)" and f4: "RowsErr \<notin> ({} :: faults)"
    and f5: "TmplExecute \<notin> ({} :: faults)" by simp_all
  have w1: "webuser (engine store_mixed) = []" and w2: "webhash (engine store_mixed) = []"
    by (simp_all add: engine_def)
  have cands: "candidates store_mixed = [mixed_two, mixed_three]"
    by (simp add: candidates_def above_threshold_def quoteThreshold_def row_Quote_def
          sqlGetUpvotes_def sqlGetDownvotes_def store_mixed_def mixed_two_def mixed_three_def)
  have flt: "sqlGetAllFiltered store_mixed = [mixed_three, mixed_two]"
    by (simp add: sqlGetAllFiltered_def cands mixed_two_def mixed_three_def)
  have g: "GetAll (engine store_mixed) {} True = Return ([mixed_three, mixed_two], None)"
    using flt by (simp add: GetAll_def engine_def)
  have srt: "sort_Slice votesort_less [mixed_three, mixed_two] = [mixed_two, mixed_three]"
    by (simp add: sort_Slice_def votesort_less_def mixed_two_def mixed_three_def)
  have p: "quotesRoot (engine store_mixed) {} accept_none None ''/'' [] ''true'' =
     Return (StatusOK \<lparr>data_NQuotes = 2, data_Quotes = [mixed_two, mixed_three]\<rparr>)"
    using g srt by (simp add: quotesRoot_def engine_def)
  note T = GetAll_by_id_votesort_by_caller[OF h1, where flt = "{}" and filterLow = True
      and qs = "[mixed_three, mixed_two]"]
  have a: "sorted_wrt (\<lambda>a b. ID b \<le> ID a) [mixed_three, mixed_two]"
    using T[THEN conjunct1, rule_format, OF g] by (rule conjunct1)
  have b: "\<exists>listed. GetAll (engine store_mixed) {} True = Return (listed, None) \<and>
      sorted_wrt (\<lambda>a b. ID b \<le> ID a) listed \<and>
      mset listed = mset (if True then candidates store_mixed
                          else map (row_Quote store_mixed) (quotes store_mixed))"
    by (rule T[THEN conjunct2, THEN conjunct2, rule_format,
               OF conjI[OF f1 conjI[OF f2 conjI[OF f3 f4]]], THEN conjunct1])
  show ?thesis
    by (rule conjI[OF h1 conjI[OF f1 conjI[OF f2 conjI[OF f3 conjI[OF f4 conjI[OF f5
          conjI[OF w1 conjI[OF w2 conjI[OF g conjI[OF a conjI[OF p b]]]]]]]]]]])
qed

section \<open>The closed engine\<close>

text \<open>
  C9 as stated fails: after \<^verbatim>\<open>Close\<close> the handle is nil, and \<^verbatim>\<open>AddQuote\<close> on the closed
  engine panics instead of returning an error.
\<close>

theorem AddQuote_after_Close_panics:
  "Close (engine store_one) {} = Return (None, (engine store_one)\<lparr>db := None\<rparr>) \<and>
   AddQuote ((engine store_one)\<lparr>db := None\<rparr>) {} 5 ''Ada'' ''Q2'' = Panic"
  by (simp add: Close_def AddQuote_def engine_def)

text \<open>
  C9 amended. After \<^verbatim>\<open>Close\<close> returns, the handle is nil and the cached count is untouched:
  \<^verbatim>\<open>NQuotes\<close> still returns it, and every operation that uses the handle (AddQuote,
  RandomQuote, GetQuote, DelQuote, EditQuote, GetAll, Upvote, Downvote, Unvote, Votes,
  getCount and Close itself) panics, whatever its arguments; none returns an error value.
\<close>

theorem closed_engine_panics:
  assumes "Close q flt = Return (e, q')"
  shows "db q' = None \<and> NQuotes q' = NQuotes q \<and>
         AddQuote q' f1 now author quote = Panic \<and>
         RandomQuote q' f2 rnd = Panic \<and>
         GetQuote q' f3 i = Panic \<and>
         DelQuote q' f4 i = Panic \<and>
         EditQuote q' f5 i quote = Panic \<and>
         GetAll q' f6 filterLow = Panic \<and>
         Upvote q' f7 now i v = Panic \<and>
         Downvote q' f8 now i v = Panic \<and>
         Unvote q' f9 i v = Panic \<and>
         Votes q' f10 i = Panic \<and>
         getCount q' f11 = Panic \<and>
         Close q' f12 = Panic"
proof -
  have q': "q' = q\<lparr>db := None\<rparr>"
    using assms by (auto simp: Close_def split: option.splits)
  show ?thesis
    by (simp add: q' NQuotes_def AddQuote_def RandomQuote_def GetQuote_def DelQuote_def
          EditQuote_def GetAll_def Upvote_def Downvote_def Unvote_def Votes_def getCount_def
          Close_def)
qed

theorem closed_engine_panics_witness:
  "Close (engine store_one) {} = Return (None, (engine store_one)\<lparr>db := None\<rparr>) \<and>
   db ((engine store_one)\<lparr>db := None\<rparr>) = None \<and>
   NQuotes ((engine store_one)\<lparr>db := None\<rparr>) = 1 \<and>
   Votes ((engine store_one)\<lparr>db := None\<rparr>) {} 1 = Panic \<and>
   Close ((engine store_one)\<lparr>db := None\<rparr>) {} = Panic"
proof -
  have h: "Close (engine store_one) {} = Return (None, (engine store_one)\<lparr>db := None\<rparr>)"
    by (simp add: Close_def engine_def)
  have n: "NQuotes (engine store_one) = 1"
    by (simp add: NQuotes_def engine_def store_one_def)
  note T = closed_engine_panics[OF h]
  show ?thesis using h n T[of "{}" 0 "[]" "[]" "{}" draws_zero "{}" 1 "{}" "{}" "{}" False "{}" "[]" "{}" "{}" "{}" "{}" "{}"]
    by simp
qed

section \<open>Votes on a missing quote\<close>

text \<open>
  C6. Each of Upvote, Downvote and Unvote, on an open engine and an id with no quote row,
  returns false with an error and leaves the engine and the file exactly as they were,
  whatever calls fail; when the transaction begins and the existence query runs, the
  error is "Not a valid id", wrapped by the rollback branch.
\<close>

theorem vote_missing_quote_NotFound:
  assumes "db q = Some d" and "sqlHasQuote d i = 0"
  shows "(\<exists>e. vote_call opn q flt now i v = Return ((False, Some e), q)) \<and>
         (BeginTx \<notin> flt \<and> HasQuote \<notin> flt \<longrightarrow>
            vote_call opn q flt now i v =
              Return ((False, Some (Errorf ''failed to rollback due to error (%v): %w''
                                      (ErrorsNew ''Not a valid id''))), q))"
  using assms
  by (cases opn; simp add: Upvote_def Downvote_def Unvote_def
        Upvote_runTx_def Downvote_runTx_def Unvote_runTx_def)

theorem vote_missing_quote_NotFound_witness:
  "db (engine store_one) = Some store_one \<and> sqlHasQuote store_one 2 = 0 \<and>
   vote_call OpUnvote (engine store_one) {} 7 2 ''x'' =
     Return ((False, Some (Errorf ''failed to rollback due to error (%v): %w''
                             (ErrorsNew ''Not a valid id''))), engine store_one)"
  using vote_missing_quote_NotFound [of "engine store_one" store_one 2 OpUnvote "{}" 7 "''x''"]
  by (simp add: engine_def store_one_def sqlHasQuote_def)

end
